theory Spec2Isabelle
  imports Complex_Main "HOL-Library.AList"
begin

section \<open>Columns with missing cells\<close>

text \<open>
  A pandas column is a list of cells; a cell is \<open>None\<close> when it is NaN (missing) and
  \<open>Some v\<close> when it is observed.  Calendar days are integers (day numbers); a date cell
  that could not be parsed (NaT) is \<open>None\<close>.  Numeric values are idealised as reals.
\<close>

type_synonym date = int

subsection \<open>Forward fill, backward fill, fillna\<close>

text \<open>\<^verbatim>\<open>Series.ffill()\<close>: a missing cell takes the last cell above it that is observed.\<close>

fun ffill_from :: "'a option \<Rightarrow> 'a option list \<Rightarrow> 'a option list" where
  "ffill_from prev [] = []"
| "ffill_from prev (None # xs) = prev # ffill_from prev xs"
| "ffill_from prev (Some v # xs) = Some v # ffill_from (Some v) xs"

definition ffill :: "'a option list \<Rightarrow> 'a option list" where
  "ffill xs = ffill_from None xs"

text \<open>\<^verbatim>\<open>Series.bfill()\<close>: the same from the end of the column.\<close>

definition bfill :: "'a option list \<Rightarrow> 'a option list" where
  "bfill xs = rev (ffill (rev xs))"

text \<open>\<^verbatim>\<open>s.fillna(t)\<close> for two columns on the same index: a missing cell of \<open>s\<close> takes
  the cell of \<open>t\<close> in the same row.\<close>

definition fillna :: "'a option list \<Rightarrow> 'a option list \<Rightarrow> 'a option list" where
  "fillna xs ys = map (\<lambda>(x, y). case x of None \<Rightarrow> y | Some v \<Rightarrow> Some v) (zip xs ys)"

definition isna_any :: "'a option list \<Rightarrow> bool" where
  "isna_any xs = (None \<in> set xs)"

subsection \<open>Linear interpolation\<close>

text \<open>
  \<^verbatim>\<open>Series.interpolate(method='linear')\<close>.  pandas documents this method as
  ``ignore the index and treat the values as equally spaced'': the coordinate of a cell is
  its row position.  With the default forward direction a missing cell between two
  observed cells lies on the line through them, a missing cell after the last observed
  cell repeats it, and a missing cell before the first observed cell stays missing.
\<close>

definition prev_valid :: "real option list \<Rightarrow> nat \<Rightarrow> nat option" where
  "prev_valid xs k = List.find (\<lambda>i. xs ! i \<noteq> None) (rev [0..<k])"

definition next_valid :: "real option list \<Rightarrow> nat \<Rightarrow> nat option" where
  "next_valid xs k = List.find (\<lambda>j. xs ! j \<noteq> None) [Suc k..<length xs]"

definition line_through :: "real \<Rightarrow> real \<Rightarrow> real \<Rightarrow> real \<Rightarrow> real \<Rightarrow> real" where
  "line_through x0 y0 x1 y1 x = y0 + (y1 - y0) * ((x - x0) / (x1 - x0))"

definition interpolate_cell :: "real option list \<Rightarrow> nat \<Rightarrow> real option" where
  "interpolate_cell xs k =
     (case xs ! k of
        Some v \<Rightarrow> Some v
      | None \<Rightarrow>
         (case prev_valid xs k of
            None \<Rightarrow> None
          | Some i \<Rightarrow>
             (case next_valid xs k of
                None \<Rightarrow> xs ! i
              | Some j \<Rightarrow>
                 (case (xs ! i, xs ! j) of
                    (Some a, Some b) \<Rightarrow> Some (line_through (real i) a (real j) b (real k))
                  | _ \<Rightarrow> None))))"

definition interpolate_linear :: "real option list \<Rightarrow> real option list" where
  "interpolate_linear xs = map (interpolate_cell xs) [0..<length xs]"


subsection \<open>Strings\<close>

text \<open>\<^verbatim>\<open>s.startswith(p)\<close>, \<^verbatim>\<open>p in s\<close> and \<^verbatim>\<open>os.path.basename\<close> (POSIX separator).\<close>

fun starts_with :: "string \<Rightarrow> string \<Rightarrow> bool" where
  "starts_with s [] = True"
| "starts_with [] (p # ps) = False"
| "starts_with (c # s) (p # ps) = (c = p \<and> starts_with s ps)"

fun contains :: "string \<Rightarrow> string \<Rightarrow> bool" where
  "contains [] p = (p = [])"
| "contains (c # s) p = (starts_with (c # s) p \<or> contains s p)"

definition basename :: "string \<Rightarrow> string" where
  "basename path = rev (takeWhile (\<lambda>c. c \<noteq> CHR ''/'') (rev path))"

section \<open>check\_and\_fix\_missing\_values.py and fix\_closeusd\_values.py\<close>

text \<open>
  A dataframe: the \<open>Date\<close> column (the index once \<^verbatim>\<open>set_index('Date')\<close> has run;
  \<open>None\<close> when the table has no such column) and the other columns in their order.
  A column is numeric (\<open>Num\<close>) or of object dtype (\<open>Obj\<close>); an \<open>Obj\<close> column holds text
  cells that do not parse as numbers.
\<close>

datatype column = Num "real option list" | Obj "string option list"

record frame =
  index :: "date option list option"
  cols :: "(string \<times> column) list"

fun col_length :: "column \<Rightarrow> nat" where
  "col_length (Num xs) = length xs"
| "col_length (Obj ss) = length ss"

fun col_isna_any :: "column \<Rightarrow> bool" where
  "col_isna_any (Num xs) = isna_any xs"
| "col_isna_any (Obj ss) = isna_any ss"

fun col_isna_all :: "column \<Rightarrow> bool" where
  "col_isna_all (Num xs) = (\<forall>x \<in> set xs. x = None)"
| "col_isna_all (Obj ss) = (\<forall>x \<in> set ss. x = None)"

text \<open>\<^verbatim>\<open>pd.to_numeric(col, errors='coerce')\<close>: text that is not a number becomes NaN.\<close>

fun to_numeric :: "column \<Rightarrow> real option list" where
  "to_numeric (Num xs) = xs"
| "to_numeric (Obj ss) = map (\<lambda>_. None) ss"

definition columns :: "frame \<Rightarrow> string list" where
  "columns df = map fst (cols df)"

definition nrows :: "frame \<Rightarrow> nat" where
  "nrows df =
     (case index df of
        Some ds \<Rightarrow> length ds
      | None \<Rightarrow> (case cols df of [] \<Rightarrow> 0 | (_, c) # _ \<Rightarrow> col_length c))"

text \<open>\<^verbatim>\<open>df[name] = c\<close>: an existing column is replaced in place, a new one is appended.\<close>

definition set_column :: "string \<Rightarrow> column \<Rightarrow> frame \<Rightarrow> frame" where
  "set_column name c df = df\<lparr>cols := AList.update name c (cols df)\<rparr>"

definition get_column :: "frame \<Rightarrow> string \<Rightarrow> column \<Rightarrow> column" where
  "get_column df name dflt = (case map_of (cols df) name of Some c \<Rightarrow> c | None \<Rightarrow> dflt)"

subsection \<open>apply\_currency\_conversion\<close>

text \<open>The cells of the \<open>Currency\<close> column, compared by \<^verbatim>\<open>==\<close>: text or a number.\<close>

datatype key = Txt string | Flt real

fun keys :: "column \<Rightarrow> key option list" where
  "keys (Num xs) = map (map_option Flt) xs"
| "keys (Obj ss) = map (map_option Txt) ss"

text \<open>\<^verbatim>\<open>Series.unique()\<close>: the distinct values in order of first appearance.\<close>

definition unique :: "'a list \<Rightarrow> 'a list" where
  "unique xs = rev (remdups (rev xs))"

fun valid :: "'a option list \<Rightarrow> 'a list" where
  "valid [] = []"
| "valid (None # xs) = valid xs"
| "valid (Some v # xs) = v # valid xs"

text \<open>\<^verbatim>\<open>Series.mean()\<close>: the mean of the observed cells, NaN when there is none.\<close>

definition mean_skipna :: "real option list \<Rightarrow> real option" where
  "mean_skipna xs =
     (let vs = valid xs in if vs = [] then None else Some (sum_list vs / real (length vs)))"

definition conversion_rates :: "(string \<times> real) list" where
  "conversion_rates =
     [(''EUR'', 1.08), (''GBP'', 1.26), (''JPY'', 0.0067), (''CNY'', 0.14), (''INR'', 0.012),
      (''CAD'', 0.74), (''CHF'', 1.13), (''KRW'', 0.00075), (''TWD'', 0.032), (''AUD'', 0.67),
      (''HKD'', 0.128), (''SGD'', 0.74), (''NZD'', 0.61), (''MXN'', 0.059), (''BRL'', 0.18),
      (''ZAR'', 0.055), (''RUB'', 0.011), (''TRY'', 0.031), (''SEK'', 0.096), (''NOK'', 0.095),
      (''DKK'', 0.145), (''PLN'', 0.25), (''ILS'', 0.27), (''THB'', 0.028), (''IDR'', 0.000064),
      (''MYR'', 0.21), (''PHP'', 0.018)]"

text \<open>The fallback rate guessed from the average close; a comparison with NaN is false.\<close>

definition estimated_rate :: "real option \<Rightarrow> real" where
  "estimated_rate avg_close =
     (case avg_close of
        None \<Rightarrow> 10
      | Some a \<Rightarrow>
          if a > 10000 then 0.001
          else if a > 1000 then 0.01
          else if a > 100 then 0.1
          else if a > 10 then 0.5
          else if a > 1 then 1
          else 10)"

text \<open>\<^verbatim>\<open>data.loc[msk, 'CloseUSD'] = src[msk]\<close>.\<close>

definition assign_mask :: "bool list \<Rightarrow> 'a list \<Rightarrow> 'a list \<Rightarrow> 'a list" where
  "assign_mask msk src dst = map (\<lambda>(m, s, d). if m then s else d) (zip msk (zip src dst))"

definition scale :: "real \<Rightarrow> real option list \<Rightarrow> real option list" where
  "scale rate xs = map (map_option (\<lambda>c. c * rate)) xs"

text \<open>One round of the loop over the currencies of the table.\<close>

definition convert_currency ::
  "real option list \<Rightarrow> key option list \<Rightarrow> key \<Rightarrow> real option list \<Rightarrow> real option list" where
  "convert_currency close kcur currency closeusd =
     (let msk = map (\<lambda>k. k = Some currency) kcur in
      if currency = Txt ''USD'' then assign_mask msk close closeusd
      else
        (case (case currency of Txt s \<Rightarrow> map_of conversion_rates s | Flt _ \<Rightarrow> None) of
           Some rate \<Rightarrow> assign_mask msk (scale rate close) closeusd
         | None \<Rightarrow>
             (let avg_close = mean_skipna (map fst (filter snd (zip close msk)));
                  estimated = estimated_rate avg_close
              in assign_mask msk (scale estimated close) closeusd)))"

text \<open>The last part of the function for \<open>CloseUSD\<close>: interpolate, fill, fall back on \<open>Close\<close>.\<close>

definition ensure_no_nan :: "real option list \<Rightarrow> real option list \<Rightarrow> real option list" where
  "ensure_no_nan close closeusd =
     (if isna_any closeusd then
        (let a = interpolate_linear closeusd;
             b = (if isna_any a then bfill (ffill a) else a)
         in if isna_any b then fillna b close else b)
      else closeusd)"

text \<open>``Fill any remaining NaN values in other columns (while we're at it)''.\<close>

definition fill_other :: "string \<Rightarrow> frame \<Rightarrow> frame" where
  "fill_other col data =
     (case map_of (cols data) col of
        Some (Num xs) \<Rightarrow>
          if col \<noteq> ''CloseUSD'' \<and> isna_any xs then
            (let a = interpolate_linear xs
             in set_column col (Num (if isna_any a then bfill (ffill a) else a)) data)
          else data
      | _ \<Rightarrow> data)"

text \<open>
  \<^verbatim>\<open>data.sort_index()\<close> on a DatetimeIndex: rows in ascending date order, NaT rows last.
  (Modelled as a stable sort; pandas leaves the order of rows with equal dates open.)
\<close>

definition sort_positions :: "date option list \<Rightarrow> nat list" where
  "sort_positions ds =
     sort_key (\<lambda>i. case ds ! i of Some d \<Rightarrow> d | None \<Rightarrow> 0)
        (filter (\<lambda>i. ds ! i \<noteq> None) [0..<length ds])
     @ filter (\<lambda>i. ds ! i = None) [0..<length ds]"

definition take_rows :: "nat list \<Rightarrow> 'a list \<Rightarrow> 'a list" where
  "take_rows perm xs = map (\<lambda>i. xs ! i) perm"

fun take_rows_column :: "nat list \<Rightarrow> column \<Rightarrow> column" where
  "take_rows_column perm (Num xs) = Num (take_rows perm xs)"
| "take_rows_column perm (Obj ss) = Obj (take_rows perm ss)"

definition sort_index :: "frame \<Rightarrow> frame" where
  "sort_index data =
     (case index data of
        None \<Rightarrow> data
      | Some ds \<Rightarrow>
          (let perm = sort_positions ds
           in \<lparr>index = Some (take_rows perm ds),
               cols = map (\<lambda>(name, c). (name, take_rows_column perm c)) (cols data)\<rparr>))"

text \<open>
  \<^verbatim>\<open>apply_currency_conversion(data, index_symbol)\<close> as \<open>fix_missing_values\<close> calls it:
  without an \<open>index_currency_map\<close>, so the index symbol is not used.
\<close>

definition apply_currency_conversion :: "frame \<Rightarrow> frame" where
  "apply_currency_conversion data =
     (case map_of (cols data) ''Close'' of
        None \<Rightarrow> data
      | Some close0 \<Rightarrow>
          (let n = nrows data;
               currency = get_column data ''Currency'' (Obj (replicate n (Some ''USD'')));
               closeusd0 = get_column data ''CloseUSD'' (Num (replicate n None));
               close = to_numeric close0;
               currencies = unique (keys currency);
               closeusd1 = fold (\<lambda>cur cu. case cur of None \<Rightarrow> cu
                                         | Some c \<Rightarrow> convert_currency close (keys currency) c cu)
                             currencies (to_numeric closeusd0);
               closeusd2 = ensure_no_nan close closeusd1;
               data1 = set_column ''Close'' (Num close)
                        (set_column ''CloseUSD'' closeusd0
                          (set_column ''Currency'' currency data));
               data2 = set_column ''CloseUSD'' (Num closeusd2) data1;
               data3 = fold fill_other (columns data2) data2
           in sort_index data3))"

subsection \<open>fix\_missing\_values\<close>

definition indices :: "string list" where
  "indices = [''NYA'', ''IXIC'', ''N225'', ''GDAXI'', ''HSI'', ''399001.SZ'',
              ''NSEI'', ''KS11'', ''TWII'', ''SSMI'', ''FTSE'', ''GSPTSE'']"

text \<open>Lines 96--98: every column but \<open>Date\<close> and \<open>Currency\<close> is made numeric.\<close>

definition convert_numeric :: "frame \<Rightarrow> frame" where
  "convert_numeric df =
     df\<lparr>cols := map (\<lambda>(name, c). if name = ''Currency'' then (name, c)
                                   else (name, Num (to_numeric c))) (cols df)\<rparr>"

text \<open>Lines 100--110: an empty \<open>Index\<close> column of an \<open>all_indices\<close> file gets the index names.\<close>

definition fill_index_column :: "string \<Rightarrow> frame \<Rightarrow> frame" where
  "fill_index_column file_path df =
     (case map_of (cols df) ''Index'' of
        Some c \<Rightarrow>
          if contains (basename file_path) ''all_indices'' \<and> col_isna_all c then
            (let num_repeats = (nrows df + length indices - 1) div length indices;
                 filled_indices = concat (replicate num_repeats indices)
             in set_column ''Index'' (Obj (map Some (take (nrows df) filled_indices))) df)
          else df
      | None \<Rightarrow> df)"

text \<open>Lines 141--143: interpolate, then fill what is left at the beginning and the end.\<close>

definition fill_numeric :: "real option list \<Rightarrow> real option list" where
  "fill_numeric xs = (let ys = interpolate_linear xs in fillna (ffill ys) (bfill ys))"

text \<open>
  The body of the loop over the columns (lines 118--146).  The import of
  \<open>apply_currency_conversion\<close> finds the module beside this one, and the function raises
  nothing on a table of this shape, so the fallback of line 137 is not taken.
\<close>

definition fill_column :: "string \<Rightarrow> frame \<Rightarrow> frame" where
  "fill_column col df =
     (case map_of (cols df) col of
        None \<Rightarrow> df
      | Some c \<Rightarrow>
          if col_isna_any c then
            (if col = ''CloseUSD'' \<and> ''Close'' \<in> set (columns df) \<and> ''Currency'' \<in> set (columns df)
             then apply_currency_conversion df
             else (case c of
                     Num xs \<Rightarrow> set_column col (Num (fill_numeric xs)) df
                   | Obj ss \<Rightarrow> set_column col (Obj (fillna (ffill ss) (bfill ss))) df))
          else df)"

definition fix_missing_values :: "frame \<Rightarrow> string \<Rightarrow> frame" where
  "fix_missing_values df0 file_path =
     (let df = fill_index_column file_path (convert_numeric df0)
      in fold fill_column (columns df) df)"

subsection \<open>Cells that a fill step leaves alone\<close>

text \<open>\<open>ys\<close> has the rows of \<open>xs\<close> and every observed cell of \<open>xs\<close> unchanged.\<close>

definition keeps_observed :: "'a option list \<Rightarrow> 'a option list \<Rightarrow> bool" where
  "keeps_observed xs ys =
     (length ys = length xs \<and> (\<forall>i < length xs. xs ! i \<noteq> None \<longrightarrow> ys ! i = xs ! i))"

text \<open>
  A well-formed table with \<open>n\<close> rows: the index and every column have \<open>n\<close> cells
  (with \<open>recomputed\<close>, nothing is asked of a column named \<open>CloseUSD\<close>).
\<close>

definition wf_frame :: "bool \<Rightarrow> nat \<Rightarrow> frame \<Rightarrow> bool" where
  "wf_frame recomputed n df =
     ((\<forall>ds. index df = Some ds \<longrightarrow> length ds = n)
      \<and> (\<forall>(name, c) \<in> set (cols df). (recomputed \<and> name = ''CloseUSD'') \<or> col_length c = n))"

text \<open>
  Sorting moves rows: row \<open>j\<close> of the result is row \<open>perm ! j\<close> of the input, where \<open>perm\<close>
  lists the positions \<open>0..<n\<close>, each once.
\<close>

definition valid_perm :: "nat \<Rightarrow> nat list \<Rightarrow> bool" where
  "valid_perm n perm = (length perm = n \<and> set perm = {0..<n})"

text \<open>\<open>ys\<close> has \<open>n\<close> rows, and every observed cell of \<open>xs\<close> is unchanged in its row.\<close>

definition rows_kept :: "nat \<Rightarrow> nat list \<Rightarrow> 'a option list \<Rightarrow> 'a option list \<Rightarrow> bool" where
  "rows_kept n perm xs ys =
     (length ys = n \<and> (\<forall>j < n. xs ! (perm ! j) \<noteq> None \<longrightarrow> ys ! j = xs ! (perm ! j)))"

fun column_kept :: "nat \<Rightarrow> nat list \<Rightarrow> column \<Rightarrow> column \<Rightarrow> bool" where
  "column_kept n perm (Num xs) (Num ys) = rows_kept n perm xs ys"
| "column_kept n perm (Obj ss) (Obj ts) = rows_kept n perm ss ts"
| "column_kept n perm _ _ = False"

text \<open>
  The table \<open>df'\<close> has the rows of \<open>df\<close> in the order \<open>perm\<close>, the same columns, and every
  observed cell kept (with \<open>recomputed\<close>, except in a column named \<open>CloseUSD\<close>).
\<close>

definition frame_kept :: "bool \<Rightarrow> nat \<Rightarrow> nat list \<Rightarrow> frame \<Rightarrow> frame \<Rightarrow> bool" where
  "frame_kept recomputed n perm df df' =
     (valid_perm n perm
      \<and> index df' = map_option (take_rows perm) (index df)
      \<and> list_all2 (\<lambda>a b. fst a = fst b
                          \<and> ((recomputed \<and> fst a = ''CloseUSD'') \<or> column_kept n perm (snd a) (snd b)))
           (cols df) (cols df'))"

text \<open>The condition under which the loop hands the table to \<open>apply_currency_conversion\<close>.\<close>

definition recomputes_closeusd :: "frame \<Rightarrow> bool" where
  "recomputes_closeusd df =
     (''Close'' \<in> set (columns df) \<and> ''Currency'' \<in> set (columns df) \<and>
      (case map_of (cols df) ''CloseUSD'' of Some c \<Rightarrow> col_isna_any c | None \<Rightarrow> False))"

subsection \<open>Interpolation over the dates, as the specification words it\<close>

text \<open>
  The specification's gap filler: ``linear interpolation between the nearest preceding and
  following observed values, using the dates as the interpolation coordinate (not position
  index)''.  This definition follows those words, for comparison with \<open>interpolate_linear\<close>.
\<close>

definition spec_interpolate_cell :: "date list \<Rightarrow> real option list \<Rightarrow> nat \<Rightarrow> real option" where
  "spec_interpolate_cell ds xs k =
     (case xs ! k of
        Some v \<Rightarrow> Some v
      | None \<Rightarrow>
         (case (prev_valid xs k, next_valid xs k) of
            (Some i, Some j) \<Rightarrow>
              (case (xs ! i, xs ! j) of
                 (Some a, Some b) \<Rightarrow>
                   Some (line_through (real_of_int (ds ! i)) a (real_of_int (ds ! j)) b
                          (real_of_int (ds ! k)))
               | _ \<Rightarrow> None)
          | _ \<Rightarrow> None))"

definition spec_interpolate_by_date :: "date list \<Rightarrow> real option list \<Rightarrow> real option list" where
  "spec_interpolate_by_date ds xs = map (spec_interpolate_cell ds xs) [0..<length xs]"

section \<open>create\_combined\_dataset.py\<close>

text \<open>\<^verbatim>\<open>str.lower()\<close> on ASCII letters.\<close>

definition lower_char :: "char \<Rightarrow> char" where
  "lower_char c =
     (case map_of (zip ''ABCDEFGHIJKLMNOPQRSTUVWXYZ'' ''abcdefghijklmnopqrstuvwxyz'') c of
        Some l \<Rightarrow> l
      | None \<Rightarrow> c)"

definition lower :: "string \<Rightarrow> string" where
  "lower s = map lower_char s"

subsection \<open>Column names\<close>

definition standard_columns :: "string list" where
  "standard_columns = [''Open'', ''High'', ''Low'', ''Close'', ''Adj Close'', ''Volume'', ''CloseUSD'']"

text \<open>
  Lines 55--88: the averaged exchange table becomes the first columns of the combined
  table.  Without a \<open>Date\<close> column, or with a date that does not parse, the run prints an
  error and returns without writing anything (\<open>None\<close>).
\<close>

definition exchange_column :: "frame \<Rightarrow> string \<Rightarrow> string \<times> column" where
  "exchange_column df col =
     (if col \<in> set (columns df) then (''AVG '' @ col, get_column df col (Num []))
      else if col = ''Adj Close'' \<and> ''Close'' \<in> set (columns df)
      then (''AVG '' @ col, get_column df ''Close'' (Num []))
      else (''AVG '' @ col, Num (replicate (nrows df) None)))"

definition exchange_df :: "frame \<Rightarrow> frame option" where
  "exchange_df df =
     (case index df of
        None \<Rightarrow> None
      | Some ds \<Rightarrow>
          if None \<in> set ds then None
          else Some \<lparr>index = Some ds, cols = map (exchange_column df) standard_columns\<rparr>)"

text \<open>Line 120: the feature type is the file name up to its first underscore (or dot).\<close>

definition feature_type :: "string \<Rightarrow> string" where
  "feature_type file_name =
     (if CHR ''_'' \<in> set file_name then takeWhile (\<lambda>c. c \<noteq> CHR ''_'') file_name
      else takeWhile (\<lambda>c. c \<noteq> CHR ''.'') file_name)"

text \<open>Lines 155--162: the name under which a column of a feature file is added.\<close>

definition column_name :: "string \<Rightarrow> string \<Rightarrow> string" where
  "column_name file_path col =
     (if contains (lower file_path) ''currency_metrics.csv''
         \<and> (col = ''BTC/USD'' \<or> col = ''Gold/BTC Ratio'')
      then col
      else feature_type (basename file_path) @ '' '' @ col)"

text \<open>Lines 148--163: the loop over the columns of a feature file (\<open>Date\<close> is the index).\<close>

definition add_feature_column ::
  "string \<Rightarrow> string \<times> column \<Rightarrow> (string \<times> column) list \<Rightarrow> (string \<times> column) list" where
  "add_feature_column file_path = (\<lambda>(col, c) feature_cols.
     if col = ''Miner Revenue (USD)'' then feature_cols
     else AList.update (column_name file_path col) c feature_cols)"

text \<open>
  Lines 109--166: one feature file.  \<open>None\<close> when the file is skipped: a fear-and-greed
  file, a file without a \<open>Date\<close> column, or one with a date that does not parse.
\<close>

definition feature_df :: "string \<Rightarrow> frame \<Rightarrow> frame option" where
  "feature_df file_path df =
     (if contains (lower (basename file_path)) ''fear_greed_index'' then None
      else
        (case index df of
           None \<Rightarrow> None
         | Some ds \<Rightarrow>
             if None \<in> set ds then None
             else Some \<lparr>index = Some ds, cols = fold (add_feature_column file_path) (cols df) []\<rparr>))"

subsection \<open>Sorting, filling and dropping before the table is written\<close>

fun map_column :: "(real option list \<Rightarrow> real option list) \<Rightarrow> (string option list \<Rightarrow> string option list)
                    \<Rightarrow> column \<Rightarrow> column" where
  "map_column f g (Num xs) = Num (f xs)"
| "map_column f g (Obj ss) = Obj (g ss)"

text \<open>Lines 198--202: \<^verbatim>\<open>final_df.ffill()\<close>, then \<^verbatim>\<open>final_df.bfill()\<close>, column by column.\<close>

definition fill_missing :: "frame \<Rightarrow> frame" where
  "fill_missing df =
     df\<lparr>cols := map (\<lambda>(name, c). (name, map_column bfill bfill (map_column ffill ffill c))) (cols df)\<rparr>"

text \<open>Lines 220--225: the columns whose name contains \<open>Currency\<close> are dropped.\<close>

definition remove_currency_columns :: "frame \<Rightarrow> frame" where
  "remove_currency_columns df =
     (let currency_columns = filter (\<lambda>col. contains col ''Currency'') (columns df)
      in if currency_columns \<noteq> []
         then df\<lparr>cols := filter (\<lambda>(name, c). name \<notin> set currency_columns) (cols df)\<rparr>
         else df)"

text \<open>
  Lines 186--225: what is done to the merged table before it is written: the rows are
  sorted by date, the gaps are filled, the \<open>Currency\<close> columns are dropped.
\<close>

definition final_table :: "frame \<Rightarrow> frame" where
  "final_table final_df = remove_currency_columns (fill_missing (sort_index final_df))"

section \<open>average\_exchanges.py\<close>

text \<open>
  An exchange table as \<open>load_exchange_data\<close> hands it over: the names of its numeric
  columns and its rows.  A row is its date and its cells, \<open>row[col]\<close> being \<open>snd row col\<close>
  (\<open>None\<close> for NaN).  \<open>exchange_data\<close> is a dict from exchange name to table; it is
  iterated in insertion order, so it is a list of pairs.
\<close>

type_synonym exchange_row = "date \<times> (string \<Rightarrow> real option)"

record exchange_table =
  numeric_cols :: "string list"
  rows :: "exchange_row list"

type_synonym exchange_data = "(string \<times> exchange_table) list"

datatype error = ValueError

record averaged =
  Date :: "date list"
  avg_cols :: "(string \<times> real option list) list"

text \<open>Lines 71--77: the set of all dates, sorted.\<close>

definition all_dates :: "exchange_data \<Rightarrow> date list" where
  "all_dates exchange_data =
     sort (remdups (concat (map (\<lambda>(name, df). map fst (rows df)) exchange_data)))"

text \<open>
  Lines 86--90: the set of all numeric column names.  Python iterates a set of strings
  in an order that depends on the hash seed of the process; \<open>set_order\<close> is that order.
\<close>

definition all_columns :: "(string list \<Rightarrow> string list) \<Rightarrow> exchange_data \<Rightarrow> string list" where
  "all_columns set_order exchange_data =
     set_order (remdups (concat (map (\<lambda>(name, df). numeric_cols df) exchange_data)))"

text \<open>A hash order lists the elements of the set, each once.\<close>

definition is_set_order :: "(string list \<Rightarrow> string list) \<Rightarrow> bool" where
  "is_set_order set_order = (\<forall>xs. distinct xs \<longrightarrow> set (set_order xs) = set xs \<and> distinct (set_order xs))"

text \<open>Line 100: \<^verbatim>\<open>{date: i for i, date in enumerate(all_dates)}\<close>.\<close>

definition date_to_idx :: "date list \<Rightarrow> date \<Rightarrow> nat option" where
  "date_to_idx dates = map_of (zip dates [0..<length dates])"

text \<open>
  \<open>column_sums[col][idx]\<close> and \<open>column_counts[col][idx]\<close>, zero at the start
  (lines 93--96), are \<open>fst acc col idx\<close> and \<open>snd acc col idx\<close>.
\<close>

type_synonym sums_counts = "(string \<Rightarrow> nat \<Rightarrow> real) \<times> (string \<Rightarrow> nat \<Rightarrow> nat)"

text \<open>Lines 114--119: one cell of one row.\<close>

definition add_cell :: "nat \<Rightarrow> exchange_row \<Rightarrow> string \<Rightarrow> sums_counts \<Rightarrow> sums_counts" where
  "add_cell idx row col = (\<lambda>(column_sums, column_counts).
     if col \<noteq> ''Date'' then
       (case snd row col of
          None \<Rightarrow> (column_sums, column_counts)
        | Some v \<Rightarrow>
            (column_sums(col := (column_sums col)(idx := column_sums col idx + v)),
             column_counts(col := (column_counts col)(idx := column_counts col idx + 1))))
     else (column_sums, column_counts))"

text \<open>Lines 109--121: one row.\<close>

definition add_row :: "(date \<Rightarrow> nat option) \<Rightarrow> string list \<Rightarrow> exchange_row \<Rightarrow> sums_counts \<Rightarrow> sums_counts" where
  "add_row to_idx common_cols row acc =
     (case to_idx (fst row) of
        None \<Rightarrow> acc
      | Some idx \<Rightarrow> fold (add_cell idx row) common_cols acc)"

text \<open>Lines 102--121: one exchange.\<close>

definition add_exchange ::
  "string list \<Rightarrow> (date \<Rightarrow> nat option) \<Rightarrow> string \<times> exchange_table \<Rightarrow> sums_counts \<Rightarrow> sums_counts" where
  "add_exchange all_cols to_idx = (\<lambda>(exchange_name, df) acc.
     let common_cols = filter (\<lambda>col. col \<in> set all_cols) (numeric_cols df)
     in fold (add_row to_idx common_cols) (rows df) acc)"

text \<open>Lines 123--129: the average of a cell, NaN when nothing was counted.\<close>

definition average_cell :: "sums_counts \<Rightarrow> string \<Rightarrow> nat \<Rightarrow> real option" where
  "average_cell acc col i =
     (if snd acc col i > 0 then Some (fst acc col i / real (snd acc col i)) else None)"

definition average_exchanges ::
  "(string list \<Rightarrow> string list) \<Rightarrow> exchange_data \<Rightarrow> error + averaged" where
  "average_exchanges set_order exchange_data =
     (if exchange_data = [] then Inl ValueError
      else
        (let dates = all_dates exchange_data;
             all_cols = all_columns set_order exchange_data;
             acc = fold (add_exchange all_cols (date_to_idx dates)) exchange_data
                     (\<lambda>col i. 0, \<lambda>col i. 0)
         in Inr \<lparr>Date = dates,
                 avg_cols = map (\<lambda>col. (col, map (average_cell acc col) [0..<length dates])) all_cols\<rparr>))"

text \<open>
  The observed values of a metric on a date: the cells of that column, in the rows of
  that date, of every exchange that has the column, missing cells left out.
\<close>

definition observed_values :: "exchange_data \<Rightarrow> string \<Rightarrow> date \<Rightarrow> real list" where
  "observed_values exchange_data col d =
     concat (map (\<lambda>(name, df).
                    if col \<in> set (numeric_cols df)
                    then valid (map (\<lambda>row. snd row col) (filter (\<lambda>row. fst row = d) (rows df)))
                    else [])
                 exchange_data)"

definition mean :: "real list \<Rightarrow> real option" where
  "mean vs = (if vs = [] then None else Some (sum_list vs / real (length vs)))"

subsection \<open>Duplicate dates in load\_exchange\_data\<close>

text \<open>
  A row as read from a file: the date may be NaT (\<open>None\<close>).  Only the numeric columns are
  modelled; \<^verbatim>\<open>mean(numeric_only=True)\<close> leaves the others out.
\<close>

type_synonym raw_row = "date option \<times> (string \<Rightarrow> real option)"

text \<open>Line 36: \<^verbatim>\<open>df['Date'].duplicated().sum()\<close>, the rows whose date occurred before.\<close>

definition duplicate_dates :: "raw_row list \<Rightarrow> nat" where
  "duplicate_dates rws = length rws - length (remdups (map fst rws))"

text \<open>
  Line 40: \<^verbatim>\<open>df.groupby('Date', as_index=False).mean(numeric_only=True)\<close>: one row for
  each date that is not NaT, in ascending order; a cell is the mean of the observed
  cells of the group.
\<close>

definition groupby_date_mean :: "raw_row list \<Rightarrow> raw_row list" where
  "groupby_date_mean rws =
     map (\<lambda>d. (Some d, \<lambda>col. mean_skipna (map (\<lambda>r. snd r col) (filter (\<lambda>r. fst r = Some d) rws))))
         (sort (remdups (valid (map fst rws))))"

text \<open>Lines 35--43.\<close>

definition resolve_duplicate_dates :: "raw_row list \<Rightarrow> raw_row list" where
  "resolve_duplicate_dates rws =
     (let df = (if duplicate_dates rws > 0 then groupby_date_mean rws else rws)
      in filter (\<lambda>r. fst r \<noteq> None) df)"

subsection \<open>Saving the averaged table\<close>

text \<open>A directory: file name to content.\<close>

type_synonym 'a files = "string \<Rightarrow> 'a option"

text \<open>\<open>save_averaged_data\<close>: both files are written directly with \<^verbatim>\<open>to_csv\<close>.\<close>

definition save_averaged_data :: "'a \<Rightarrow> string \<Rightarrow> 'a files \<Rightarrow> 'a files" where
  "save_averaged_data df timestamp fs =
     (fs(''averaged_exchanges_'' @ timestamp @ ''.csv'' \<mapsto> df))(''averaged_exchanges.csv'' \<mapsto> df)"

section \<open>combine\_volatility\_currency.py\<close>

text \<open>
  Line 114: \<^verbatim>\<open>volatility_df.index.intersection(currency_df.index)\<close>, the dates present in
  both tables, each once; it becomes the index of the combined table (line 123).
\<close>

definition common_dates :: "date list \<Rightarrow> date list \<Rightarrow> date list" where
  "common_dates volatility_index currency_index =
     unique (filter (\<lambda>d. d \<in> set currency_index) volatility_index)"

text \<open>
  Lines 139--142: \<^verbatim>\<open>combined_df[~combined_df.index.duplicated(keep='first')]\<close>: of the rows
  with the same date only the first stays.  The table is a list of rows, each with its
  date; \<open>combined_df\<close> is built on the index \<open>common_dates\<close> (line 123).
\<close>

fun keep_first :: "'k list \<Rightarrow> ('k \<times> 'v) list \<Rightarrow> ('k \<times> 'v) list" where
  "keep_first seen [] = []"
| "keep_first seen ((k, v) # rs) =
     (if k \<in> set seen then keep_first seen rs else (k, v) # keep_first (k # seen) rs)"

definition drop_duplicated :: "('k \<times> 'v) list \<Rightarrow> ('k \<times> 'v) list" where
  "drop_duplicated combined_df =
     (if \<not> distinct (map fst combined_df) then keep_first [] combined_df else combined_df)"

section \<open>Writing the combined dataset\<close>

text \<open>
  Lines 234--284 of \<open>create_combined_dataset\<close>.  Whether an operation on the file system
  succeeds is not in the program's hands: \<open>io\<close> says, for the writes, the copy, and the
  removal and the rename of each attempt, whether it goes through.
\<close>

record io =
  snapshot_ok :: bool
  temp_ok :: bool
  backup_ok :: bool
  remove_ok :: "nat \<Rightarrow> bool"
  rename_ok :: "nat \<Rightarrow> bool"

datatype os_error = OSError

definition output_path :: "string \<Rightarrow> string" where
  "output_path timestamp = ''combined_dataset_'' @ timestamp @ ''.csv''"

definition static_path :: string where "static_path = ''combined_dataset_latest.csv''"
definition backup_file :: string where "backup_file = ''combined_dataset_backup.csv''"
definition temp_file :: string where "temp_file = ''combined_dataset_temp.csv''"

definition max_attempts :: nat where "max_attempts = 5"

text \<open>
  Lines 261--282: the loop.  An attempt removes the latest file if it exists (a failure
  there is only printed), then renames the temporary file onto it.
\<close>

function rename_loop :: "io \<Rightarrow> nat \<Rightarrow> 'a files \<Rightarrow> 'a files \<times> bool" where
  "rename_loop env current_attempt fs =
     (if current_attempt < max_attempts then
        (let fs1 = (if fs static_path \<noteq> None \<and> remove_ok env current_attempt
                    then fs(static_path := None) else fs)
         in if rename_ok env current_attempt \<and> fs1 temp_file \<noteq> None
            then ((fs1(static_path := fs1 temp_file))(temp_file := None), True)
            else rename_loop env (Suc current_attempt) fs1)
      else (fs, False))"
  by pat_completeness auto
termination
  by (relation "measure (\<lambda>(env, current_attempt, fs). max_attempts - current_attempt)") auto

declare rename_loop.simps [simp del]

text \<open>Lines 238--284: a failure of the temporary write ends the attempt to update.\<close>

definition save_latest :: "io \<Rightarrow> 'a \<Rightarrow> 'a files \<Rightarrow> 'a files" where
  "save_latest env final_df fs =
     (if \<not> temp_ok env then fs
      else
        (let fs1 = fs(temp_file \<mapsto> final_df);
             fs2 = (if fs1 static_path \<noteq> None \<and> backup_ok env
                    then fs1(backup_file := fs1 static_path) else fs1)
         in fst (rename_loop env 0 fs2)))"

text \<open>Lines 234--284: the timestamped file first; if that write fails the run fails.\<close>

definition save_outputs :: "io \<Rightarrow> string \<Rightarrow> 'a \<Rightarrow> 'a files \<Rightarrow> os_error + 'a files" where
  "save_outputs env timestamp final_df fs =
     (if \<not> snapshot_ok env then Inl OSError
      else Inr (save_latest env final_df (fs(output_path timestamp \<mapsto> final_df))))"

section \<open>Properties of the fill steps\<close>


lemma keeps_observed_refl: "keeps_observed xs xs"
  by (simp add: keeps_observed_def)

lemma keeps_observed_trans:
  "keeps_observed xs ys \<Longrightarrow> keeps_observed ys zs \<Longrightarrow> keeps_observed xs zs"
  by (auto simp: keeps_observed_def)

lemma length_ffill_from: "length (ffill_from p xs) = length xs"
  by (induction p xs rule: ffill_from.induct) simp_all

lemma nth_ffill_from:
  "i < length xs \<Longrightarrow> xs ! i \<noteq> None \<Longrightarrow> ffill_from p xs ! i = xs ! i"
proof (induction p xs arbitrary: i rule: ffill_from.induct)
  case (1 prev)
  then show ?case by simp
next
  case (2 prev xs)
  then show ?case by (cases i) simp_all
next
  case (3 prev v xs)
  then show ?case by (cases i) simp_all
qed

lemma keeps_observed_ffill: "keeps_observed xs (ffill xs)"
  by (simp add: keeps_observed_def ffill_def length_ffill_from nth_ffill_from)

lemma keeps_observed_bfill: "keeps_observed xs (bfill xs)"
proof -
  have "bfill xs ! i = xs ! i" if "i < length xs" "xs ! i \<noteq> None" for i
  proof -
    let ?j = "length xs - Suc i"
    have j: "?j < length (rev xs)" using that by simp
    have "rev xs ! ?j = xs ! i" using that by (simp add: rev_nth)
    then have "ffill_from None (rev xs) ! ?j = xs ! i"
      using nth_ffill_from [OF j, of None] that by simp
    then show ?thesis
      using that by (simp add: bfill_def ffill_def rev_nth length_ffill_from)
  qed
  then show ?thesis
    by (simp add: keeps_observed_def bfill_def ffill_def length_ffill_from)
qed

lemma keeps_observed_fillna:
  "length ys = length xs \<Longrightarrow> keeps_observed xs (fillna xs ys)"
  by (auto simp: keeps_observed_def fillna_def)

lemma keeps_observed_interpolate: "keeps_observed xs (interpolate_linear xs)"
  by (auto simp: keeps_observed_def interpolate_linear_def interpolate_cell_def)

lemma keeps_observed_fill_numeric: "keeps_observed xs (fill_numeric xs)"
proof -
  let ?ys = "interpolate_linear xs"
  have "length (bfill ?ys) = length (ffill ?ys)"
    using keeps_observed_bfill [of ?ys] keeps_observed_ffill [of ?ys]
    by (simp add: keeps_observed_def)
  then have "keeps_observed (ffill ?ys) (fillna (ffill ?ys) (bfill ?ys))"
    by (rule keeps_observed_fillna)
  with keeps_observed_interpolate [of xs] keeps_observed_ffill [of ?ys]
  show ?thesis
    unfolding fill_numeric_def Let_def by (blast intro: keeps_observed_trans)
qed

lemma keeps_observed_fill_object: "keeps_observed ss (fillna (ffill ss) (bfill ss))"
proof -
  have "length (bfill ss) = length (ffill ss)"
    using keeps_observed_bfill [of ss] keeps_observed_ffill [of ss]
    by (simp add: keeps_observed_def)
  then have "keeps_observed (ffill ss) (fillna (ffill ss) (bfill ss))"
    by (rule keeps_observed_fillna)
  with keeps_observed_ffill [of ss] show ?thesis
    by (blast intro: keeps_observed_trans)
qed

lemma keeps_observed_ffill_bfill: "keeps_observed xs (bfill (ffill xs))"
  using keeps_observed_ffill [of xs] keeps_observed_bfill [of "ffill xs"]
  by (blast intro: keeps_observed_trans)


lemma remove_currency_columns_cols:
  "cols (remove_currency_columns df) = filter (\<lambda>(name, c). \<not> contains name ''Currency'') (cols df)"
proof -
  have "filter (\<lambda>(name, c). name \<notin> set (filter (\<lambda>col. contains col ''Currency'') (columns df))) (cols df)
        = filter (\<lambda>(name, c). \<not> contains name ''Currency'') (cols df)"
    by (rule filter_cong) (auto simp: columns_def rev_image_eqI)
  moreover have "filter (\<lambda>(name, c). \<not> contains name ''Currency'') (cols df) = cols df"
    if "filter (\<lambda>col. contains col ''Currency'') (columns df) = []"
    using that by (auto simp: columns_def filter_empty_conv filter_id_conv)
  ultimately show ?thesis
    by (simp add: remove_currency_columns_def Let_def)
qed

lemma valid_perm_id: "valid_perm n [0..<n]"
  by (simp add: valid_perm_def)

lemma valid_perm_nth: "valid_perm n p \<Longrightarrow> j < n \<Longrightarrow> p ! j < n"
  unfolding valid_perm_def by (metis atLeastLessThan_iff nth_mem)

lemma valid_perm_comp:
  assumes "valid_perm n p" and "valid_perm n q"
  shows "valid_perm n (map ((!) p) q)"
proof -
  have "(!) p ` {0..<n} = set p"
    using assms(1) by (auto simp: valid_perm_def set_conv_nth)
  with assms show ?thesis by (simp add: valid_perm_def)
qed

lemma comp_id_right: "length p = n \<Longrightarrow> map ((!) p) [0..<n] = p"
  by (metis map_nth)

lemma comp_id_left: "valid_perm n q \<Longrightarrow> map ((!) [0..<n]) q = q"
  by (rule map_idI) (auto simp: valid_perm_def)

lemma rows_kept_comp:
  assumes "rows_kept n p xs ys" and "rows_kept n q ys zs" and "valid_perm n q"
  shows "rows_kept n (map ((!) p) q) xs zs"
proof -
  have "zs ! j = xs ! (p ! (q ! j))" if j: "j < n" and o: "xs ! (p ! (q ! j)) \<noteq> None" for j
  proof -
    have i: "q ! j < n" using assms(3) j by (rule valid_perm_nth)
    with assms(1) o have "ys ! (q ! j) = xs ! (p ! (q ! j))" by (simp add: rows_kept_def)
    with assms(2) j o show ?thesis by (simp add: rows_kept_def)
  qed
  moreover have "length q = n" using assms(3) by (simp add: valid_perm_def)
  ultimately show ?thesis using assms(2) by (simp add: rows_kept_def)
qed

lemma column_kept_comp:
  "column_kept n p a b \<Longrightarrow> column_kept n q b c \<Longrightarrow> valid_perm n q \<Longrightarrow>
   column_kept n (map ((!) p) q) a c"
  by (cases a; cases b; cases c) (auto intro: rows_kept_comp)

lemma take_rows_comp:
  assumes "valid_perm n p" and "valid_perm n q"
  shows "take_rows q (take_rows p ds) = take_rows (map ((!) p) q) ds"
proof -
  have "\<forall>i \<in> set q. i < length p" using assms by (auto simp: valid_perm_def)
  then show ?thesis by (simp add: take_rows_def)
qed

lemma frame_kept_comp:
  assumes "frame_kept f n p df df'" and "frame_kept f n q df' df''"
  shows "frame_kept f n (map ((!) p) q) df df''"
proof -
  from assms have vp: "valid_perm n p" and vq: "valid_perm n q"
    by (simp_all add: frame_kept_def)
  have idx: "index df'' = map_option (take_rows (map ((!) p) q)) (index df)"
    using assms take_rows_comp [OF vp vq]
    by (cases "index df") (simp_all add: frame_kept_def)
  let ?R = "\<lambda>r a b. fst a = fst b \<and> ((f \<and> fst a = ''CloseUSD'') \<or> column_kept n r (snd a) (snd b))"
  have "list_all2 (?R p) (cols df) (cols df')" "list_all2 (?R q) (cols df') (cols df'')"
    using assms by (simp_all add: frame_kept_def)
  then have "list_all2 (?R (map ((!) p) q)) (cols df) (cols df'')"
  proof (rule list_all2_trans [rotated])
    fix a b c assume "?R p a b" "?R q b c"
    then show "?R (map ((!) p) q) a c"
      using column_kept_comp [OF _ _ vq] by auto
  qed
  with idx valid_perm_comp [OF vp vq] show ?thesis
    by (simp add: frame_kept_def)
qed

lemma frame_kept_then_id:
  assumes "frame_kept f n p df df'" and "frame_kept f n [0..<n] df' df''"
  shows "frame_kept f n p df df''"
proof -
  from assms(1) have "length p = n" by (simp add: frame_kept_def valid_perm_def)
  with frame_kept_comp [OF assms] show ?thesis by (simp add: comp_id_right)
qed

lemma frame_kept_id_then:
  assumes "frame_kept f n [0..<n] df df'" and "frame_kept f n q df' df''"
  shows "frame_kept f n q df df''"
proof -
  from assms(2) have "valid_perm n q" by (simp add: frame_kept_def)
  with frame_kept_comp [OF assms] show ?thesis by (simp add: comp_id_left)
qed

lemma rows_kept_id: "keeps_observed xs ys \<Longrightarrow> length xs = n \<Longrightarrow> rows_kept n [0..<n] xs ys"
  by (auto simp: keeps_observed_def rows_kept_def)

lemma column_kept_refl: "col_length c = n \<Longrightarrow> column_kept n [0..<n] c c"
  by (cases c) (simp_all add: rows_kept_def)

lemma frame_kept_refl:
  assumes "wf_frame f n df"
  shows "frame_kept f n [0..<n] df df"
proof -
  have "map_option (take_rows [0..<n]) (index df) = index df"
  proof (cases "index df")
    case None
    then show ?thesis by simp
  next
    case (Some ds)
    with assms have "length ds = n" by (simp add: wf_frame_def)
    with Some show ?thesis by (simp add: take_rows_def comp_id_right)
  qed
  moreover have "list_all2 (\<lambda>a b. fst a = fst b
                          \<and> ((f \<and> fst a = ''CloseUSD'') \<or> column_kept n [0..<n] (snd a) (snd b)))
           (cols df) (cols df)"
    unfolding list_all2_same using assms by (auto simp: wf_frame_def column_kept_refl)
  ultimately show ?thesis
    by (simp add: frame_kept_def valid_perm_id)
qed

lemma column_kept_length: "column_kept n p c c' \<Longrightarrow> col_length c' = n"
  by (cases c; cases c') (simp_all add: rows_kept_def)

lemma frame_kept_wf:
  assumes "frame_kept f n p df df'"
  shows "wf_frame f n df'"
proof -
  have "length (take_rows p ds) = n" for ds :: "date option list"
    using assms by (simp add: frame_kept_def valid_perm_def take_rows_def)
  then have "\<forall>ds. index df' = Some ds \<longrightarrow> length ds = n"
    using assms by (auto simp: frame_kept_def)
  moreover have "(f \<and> fst b = ''CloseUSD'') \<or> col_length (snd b) = n" if "b \<in> set (cols df')" for b
  proof -
    from that obtain i where i: "i < length (cols df')" "b = cols df' ! i"
      by (auto simp: in_set_conv_nth)
    from assms have "list_all2 (\<lambda>a b. fst a = fst b
                          \<and> ((f \<and> fst a = ''CloseUSD'') \<or> column_kept n p (snd a) (snd b)))
           (cols df) (cols df')"
      by (simp add: frame_kept_def)
    from list_all2_nthD2 [OF this i(1)] i(2)
    have "fst (cols df ! i) = fst b"
      "(f \<and> fst (cols df ! i) = ''CloseUSD'') \<or> column_kept n p (snd (cols df ! i)) (snd b)"
      by auto
    then show ?thesis by (auto dest: column_kept_length)
  qed
  ultimately show ?thesis unfolding wf_frame_def by fastforce
qed


lemma list_all2_update:
  assumes "\<forall>x \<in> set cs. R x x" and "map_of cs col = Some c" and "R (col, c) (col, c')"
  shows "list_all2 R cs (AList.update col c' cs)"
  using assms
proof (induction cs)
  case Nil
  then show ?case by simp
next
  case (Cons a cs)
  show ?case
  proof (cases "fst a = col")
    case True
    with Cons.prems have "a = (col, c)" by (cases a) simp
    with Cons.prems show ?thesis by (simp add: list_all2_same)
  next
    case False
    with Cons show ?thesis by (cases a) simp
  qed
qed

lemma index_take_rows_id:
  "wf_frame f n df \<Longrightarrow> map_option (take_rows [0..<n]) (index df) = index df"
  by (cases "index df") (simp_all add: wf_frame_def take_rows_def comp_id_right)

lemma frame_kept_set_column:
  assumes "wf_frame f n df" and "map_of (cols df) col = Some c"
    and "(f \<and> col = ''CloseUSD'') \<or> column_kept n [0..<n] c c'"
  shows "frame_kept f n [0..<n] df (set_column col c' df)"
proof -
  let ?R = "\<lambda>a b. fst a = fst b \<and> ((f \<and> fst a = ''CloseUSD'') \<or> column_kept n [0..<n] (snd a) (snd b))"
  have r1: "\<forall>x \<in> set (cols df). ?R x x"
    using assms(1) by (auto simp: wf_frame_def column_kept_refl)
  have r2: "?R (col, c) (col, c')" using assms(3) by simp
  have "list_all2 ?R (cols df) (AList.update col c' (cols df))"
    by (rule list_all2_update [where R = ?R, OF r1 assms(2) r2])
  then show ?thesis
    using index_take_rows_id [OF assms(1)]
    by (simp add: frame_kept_def set_column_def valid_perm_id)
qed

lemma valid_perm_sort_positions: "length ds = n \<Longrightarrow> valid_perm n (sort_positions ds)"
proof -
  assume n: "length ds = n"
  have "length (filter (\<lambda>i. ds ! i \<noteq> None) [0..<length ds])
          + length (filter (\<lambda>i. \<not> ds ! i \<noteq> None) [0..<length ds]) = length [0..<length ds]"
    by (rule sum_length_filter_compl)
  then have "length (sort_positions ds) = length ds"
    by (simp add: sort_positions_def)
  moreover have "set (sort_positions ds) = {0..<length ds}"
    by (auto simp: sort_positions_def)
  ultimately show ?thesis using n by (simp add: valid_perm_def)
qed

lemma column_kept_take_rows: "length q = n \<Longrightarrow> column_kept n q c (take_rows_column q c)"
  by (cases c) (simp_all add: rows_kept_def take_rows_def)

lemma frame_kept_sort_index:
  assumes "wf_frame f n df"
  shows "\<exists>q. frame_kept f n q df (sort_index df)"
proof (cases "index df")
  case None
  then have "sort_index df = df" by (simp add: sort_index_def)
  with frame_kept_refl [OF assms] show ?thesis by auto
next
  case (Some ds)
  with assms have "length ds = n" by (simp add: wf_frame_def)
  then have v: "valid_perm n (sort_positions ds)" by (rule valid_perm_sort_positions)
  then have len: "length (sort_positions ds) = n" by (simp add: valid_perm_def)
  have "list_all2 (\<lambda>a b. fst a = fst b
           \<and> ((f \<and> fst a = ''CloseUSD'') \<or> column_kept n (sort_positions ds) (snd a) (snd b)))
         (cols df) (map (\<lambda>(name, c). (name, take_rows_column (sort_positions ds) c)) (cols df))"
    unfolding list_all2_map2 list_all2_same
    using column_kept_take_rows [OF len] by (auto simp: case_prod_unfold)
  with Some v have "frame_kept f n (sort_positions ds) df (sort_index df)"
    by (simp add: frame_kept_def sort_index_def Let_def)
  then show ?thesis ..
qed

lemma fill_other_value_kept:
  "keeps_observed xs (let a = interpolate_linear xs in if isna_any a then bfill (ffill a) else a)"
  using keeps_observed_interpolate [of xs] keeps_observed_ffill_bfill [of "interpolate_linear xs"]
  by (auto simp: Let_def intro: keeps_observed_trans)

lemma frame_kept_fill_other:
  assumes "wf_frame f n df"
  shows "frame_kept f n [0..<n] df (fill_other col df)"
proof (cases "map_of (cols df) col")
  case None
  then show ?thesis using frame_kept_refl [OF assms] by (simp add: fill_other_def)
next
  case (Some c)
  show ?thesis
  proof (cases c)
    case (Obj ss)
    with Some show ?thesis using frame_kept_refl [OF assms] by (simp add: fill_other_def)
  next
    case (Num xs)
    show ?thesis
    proof (cases "col \<noteq> ''CloseUSD'' \<and> isna_any xs")
      case False
      with Some Num show ?thesis
        using frame_kept_refl [OF assms] by (auto simp: fill_other_def)
    next
      case True
      from Some Num have "(col, Num xs) \<in> set (cols df)" by (auto dest: map_of_SomeD)
      with assms True have "length xs = n" by (auto simp: wf_frame_def)
      with fill_other_value_kept [of xs]
      have "column_kept n [0..<n] (Num xs)
              (Num (let a = interpolate_linear xs in if isna_any a then bfill (ffill a) else a))"
        by (simp add: rows_kept_id)
      with assms Some Num
      have "frame_kept f n [0..<n] df
              (set_column col (Num (let a = interpolate_linear xs
                                    in if isna_any a then bfill (ffill a) else a)) df)"
        by (intro frame_kept_set_column) auto
      with True Some Num show ?thesis by (simp add: fill_other_def Let_def)
    qed
  qed
qed

lemma frame_kept_fold_fill_other:
  "wf_frame f n df \<Longrightarrow> frame_kept f n [0..<n] df (fold fill_other names df)"
proof (induction names arbitrary: df)
  case Nil
  then show ?case by (simp add: frame_kept_refl)
next
  case (Cons col names)
  have a: "frame_kept f n [0..<n] df (fill_other col df)"
    using Cons.prems by (rule frame_kept_fill_other)
  then have "wf_frame f n (fill_other col df)" by (rule frame_kept_wf)
  then have "frame_kept f n [0..<n] (fill_other col df) (fold fill_other names (fill_other col df))"
    by (rule Cons.IH)
  with a show ?case by (auto intro: frame_kept_then_id)
qed

lemma set_column_same: "map_of (cols df) name = Some c \<Longrightarrow> set_column name c df = df"
  by (simp add: set_column_def update_triv)

lemma frame_kept_conversion:
  assumes "wf_frame True n df" and "map_of (cols df) ''Close'' = Some (Num cl)"
    and "map_of (cols df) ''Currency'' = Some currency" and "map_of (cols df) ''CloseUSD'' = Some closeusd0"
  shows "\<exists>q. frame_kept True n q df (apply_currency_conversion df)"
proof -
  define closeusd2 where "closeusd2 =
     ensure_no_nan cl (fold (\<lambda>cur cu. case cur of None \<Rightarrow> cu
                                         | Some c \<Rightarrow> convert_currency cl (keys currency) c cu)
                             (unique (keys currency)) (to_numeric closeusd0))"
  define data2 where "data2 = set_column ''CloseUSD'' (Num closeusd2) df"
  have eq: "apply_currency_conversion df = sort_index (fold fill_other (columns data2) data2)"
    using assms(2-4)
    by (simp add: apply_currency_conversion_def Let_def get_column_def set_column_same
                  data2_def closeusd2_def)
  have "frame_kept True n [0..<n] df data2"
    unfolding data2_def using assms(1,4) by (intro frame_kept_set_column) auto
  moreover from this have w2: "wf_frame True n data2" by (rule frame_kept_wf)
  then have "frame_kept True n [0..<n] data2 (fold fill_other (columns data2) data2)"
    by (rule frame_kept_fold_fill_other)
  ultimately have k3: "frame_kept True n [0..<n] df (fold fill_other (columns data2) data2)"
    by (rule frame_kept_then_id)
  then have "wf_frame True n (fold fill_other (columns data2) data2)" by (rule frame_kept_wf)
  then obtain q where "frame_kept True n q (fold fill_other (columns data2) data2)
                         (sort_index (fold fill_other (columns data2) data2))"
    using frame_kept_sort_index by blast
  with k3 have "frame_kept True n q df (sort_index (fold fill_other (columns data2) data2))"
    by (rule frame_kept_id_then)
  then show ?thesis unfolding eq ..
qed


lemma list_all2_map_of:
  assumes "list_all2 R cs cs'" and "\<And>a b. R a b \<Longrightarrow> fst a = fst b"
  shows "(map_of cs k = None \<longleftrightarrow> map_of cs' k = None)
         \<and> (\<forall>c c'. map_of cs k = Some c \<and> map_of cs' k = Some c' \<longrightarrow> R (k, c) (k, c'))"
  using assms(1)
proof (induction rule: list_all2_induct)
  case Nil
  then show ?case by simp
next
  case (Cons a cs b cs')
  from assms(2) [OF Cons.hyps(1)] have "fst a = fst b" .
  with Cons show ?case by (cases a; cases b) auto
qed

lemma frame_kept_map_of:
  assumes "frame_kept f n p df df'"
  shows "(map_of (cols df) k = None \<longleftrightarrow> map_of (cols df') k = None)
         \<and> (\<forall>c c'. map_of (cols df) k = Some c \<and> map_of (cols df') k = Some c'
               \<longrightarrow> (f \<and> k = ''CloseUSD'') \<or> column_kept n p c c')"
  using list_all2_map_of [where R = "\<lambda>a b. fst a = fst b
                          \<and> ((f \<and> fst a = ''CloseUSD'') \<or> column_kept n p (snd a) (snd b))"
                          and cs = "cols df" and cs' = "cols df'" and k = k] assms
  by (simp add: frame_kept_def)

lemma list_all2_names:
  "list_all2 R cs cs' \<Longrightarrow> (\<And>a b. R a b \<Longrightarrow> fst a = fst b) \<Longrightarrow> map fst cs' = map fst cs"
  by (induction rule: list_all2_induct) auto

lemma frame_kept_columns: "frame_kept f n p df df' \<Longrightarrow> columns df' = columns df"
  unfolding frame_kept_def columns_def
  by (elim conjE, erule list_all2_names) simp

lemma in_columns_map_of: "name \<in> set (columns df) \<Longrightarrow> \<exists>c. map_of (cols df) name = Some c"
  by (cases "map_of (cols df) name") (auto simp: columns_def map_of_eq_None_iff)

lemma rows_kept_full:
  assumes "rows_kept n [0..<n] xs ys" and "length xs = n" and "\<not> isna_any xs"
  shows "ys = xs"
proof (rule nth_equalityI)
  show "length ys = length xs" using assms by (simp add: rows_kept_def)
next
  fix i assume "i < length ys"
  then have i: "i < n" using assms(1) by (simp add: rows_kept_def)
  with assms(2) have "xs ! i \<in> set xs" by simp
  with assms(3) have "xs ! i \<noteq> None" unfolding isna_any_def by metis
  with i assms(1) show "ys ! i = xs ! i" by (simp add: rows_kept_def)
qed

lemma column_kept_full:
  "column_kept n [0..<n] c c' \<Longrightarrow> col_length c = n \<Longrightarrow> \<not> col_isna_any c \<Longrightarrow> \<not> col_isna_any c'"
  by (cases c; cases c') (auto dest: rows_kept_full)

lemma recomputes_closeusd_kept:
  assumes k: "frame_kept False n [0..<n] df df'" and w: "wf_frame False n df"
    and no: "\<not> recomputes_closeusd df"
  shows "\<not> recomputes_closeusd df'"
proof
  assume r: "recomputes_closeusd df'"
  then obtain c' where c': "map_of (cols df') ''CloseUSD'' = Some c'" "col_isna_any c'"
    by (auto simp: recomputes_closeusd_def split: option.splits)
  from r have "''Close'' \<in> set (columns df)" "''Currency'' \<in> set (columns df)"
    using frame_kept_columns [OF k] by (simp_all add: recomputes_closeusd_def)
  moreover from frame_kept_map_of [OF k, of "''CloseUSD''"] c'(1)
  obtain c where c: "map_of (cols df) ''CloseUSD'' = Some c" "column_kept n [0..<n] c c'"
    by (cases "map_of (cols df) ''CloseUSD''") auto
  moreover from c(1) w have "col_length c = n"
    by (auto simp: wf_frame_def dest: map_of_SomeD)
  ultimately show False
    using no c'(2) column_kept_full [of n c c'] by (auto simp: recomputes_closeusd_def)
qed

lemma frame_kept_fill_column:
  assumes w: "wf_frame f n df" and no: "\<not> f \<longrightarrow> \<not> recomputes_closeusd df"
    and cl: "\<forall>c. map_of (cols df) ''Close'' = Some c \<longrightarrow> (\<exists>xs. c = Num xs)"
  shows "\<exists>q. frame_kept f n q df (fill_column col df) \<and> (\<not> f \<longrightarrow> q = [0..<n])"
proof (cases "map_of (cols df) col")
  case None
  then show ?thesis using frame_kept_refl [OF w] by (auto simp: fill_column_def)
next
  case (Some c)
  show ?thesis
  proof (cases "col_isna_any c")
    case False
    with Some show ?thesis using frame_kept_refl [OF w] by (auto simp: fill_column_def)
  next
    case True
    show ?thesis
    proof (cases "col = ''CloseUSD'' \<and> ''Close'' \<in> set (columns df) \<and> ''Currency'' \<in> set (columns df)")
      case conv: True
      with Some True have "recomputes_closeusd df" by (simp add: recomputes_closeusd_def)
      with no have f: f by blast
      from conv obtain c1 c2 where "map_of (cols df) ''Close'' = Some c1"
        "map_of (cols df) ''Currency'' = Some c2"
        using in_columns_map_of [of "''Close''" df] in_columns_map_of [of "''Currency''" df]
        by blast
      moreover with cl obtain xs where "c1 = Num xs" by blast
      ultimately obtain q where "frame_kept True n q df (apply_currency_conversion df)"
        using frame_kept_conversion [of n df xs c2 c] w f Some conv by auto
      moreover have "fill_column col df = apply_currency_conversion df"
        using Some True conv by (simp add: fill_column_def)
      ultimately show ?thesis using f by auto
    next
      case other: False
      have len: "(f \<and> col = ''CloseUSD'') \<or> col_length c = n"
        using w Some by (auto simp: wf_frame_def dest: map_of_SomeD)
      show ?thesis
      proof (cases c)
        case (Num xs)
        with Some True other
        have e: "fill_column col df = set_column col (Num (fill_numeric xs)) df"
          by (auto simp: fill_column_def)
        from len Num keeps_observed_fill_numeric [of xs]
        have "(f \<and> col = ''CloseUSD'') \<or> column_kept n [0..<n] c (Num (fill_numeric xs))"
          by (auto simp: rows_kept_id)
        from frame_kept_set_column [OF w Some this] e show ?thesis by auto
      next
        case (Obj ss)
        with Some True other
        have e: "fill_column col df = set_column col (Obj (fillna (ffill ss) (bfill ss))) df"
          by (auto simp: fill_column_def)
        from len Obj keeps_observed_fill_object [of ss]
        have "(f \<and> col = ''CloseUSD'') \<or> column_kept n [0..<n] c (Obj (fillna (ffill ss) (bfill ss)))"
          by (auto simp: rows_kept_id)
        from frame_kept_set_column [OF w Some this] e show ?thesis by auto
      qed
    qed
  qed
qed

lemma frame_kept_fold_fill_column:
  assumes "wf_frame False n start" and "\<not> f \<longrightarrow> \<not> recomputes_closeusd start"
    and "\<forall>c. map_of (cols start) ''Close'' = Some c \<longrightarrow> (\<exists>xs. c = Num xs)"
    and "frame_kept f n p start df" and "\<not> f \<longrightarrow> p = [0..<n]"
  shows "\<exists>q. frame_kept f n q start (fold fill_column names df) \<and> (\<not> f \<longrightarrow> q = [0..<n])"
  using assms(4,5)
proof (induction names arbitrary: df p)
  case Nil
  then show ?case by auto
next
  case (Cons col names)
  have w: "wf_frame f n df" using Cons.prems(1) by (rule frame_kept_wf)
  have no: "\<not> f \<longrightarrow> \<not> recomputes_closeusd df"
    using recomputes_closeusd_kept [of n start df] assms(1,2) Cons.prems by auto
  have cl: "\<forall>c. map_of (cols df) ''Close'' = Some c \<longrightarrow> (\<exists>xs. c = Num xs)"
  proof (intro allI impI)
    fix c' assume c': "map_of (cols df) ''Close'' = Some c'"
    with frame_kept_map_of [OF Cons.prems(1), of "''Close''"]
    obtain c where c: "map_of (cols start) ''Close'' = Some c" "column_kept n p c c'"
      by (cases "map_of (cols start) ''Close''") auto
    with assms(3) obtain xs where "c = Num xs" by blast
    with c(2) show "\<exists>xs. c' = Num xs" by (cases c') auto
  qed
  from frame_kept_fill_column [OF w no cl, of col]
  obtain q where q: "frame_kept f n q df (fill_column col df)" "\<not> f \<longrightarrow> q = [0..<n]"
    by blast
  have "frame_kept f n (map ((!) p) q) start (fill_column col df)"
    using Cons.prems(1) q(1) by (rule frame_kept_comp)
  moreover have "\<not> f \<longrightarrow> map ((!) p) q = [0..<n]"
    using Cons.prems(2) q(2) by (auto simp: comp_id_right)
  ultimately show ?case
    using Cons.IH [of "map ((!) p) q" "fill_column col df"] by simp
qed


lemma wf_convert_numeric:
  assumes "wf_frame False n df0"
  shows "wf_frame False n (convert_numeric df0)"
proof -
  have "col_length (Num (to_numeric c)) = col_length c" for c by (cases c) simp_all
  with assms show ?thesis
    by (auto simp: wf_frame_def convert_numeric_def split: if_splits)
qed

lemma nrows_convert_numeric: "nrows (convert_numeric df0) = nrows df0"
proof (cases "index df0")
  case (Some ds)
  then show ?thesis by (simp add: nrows_def convert_numeric_def)
next
  case None
  have len: "col_length (Num (to_numeric c)) = col_length c" for c by (cases c) simp_all
  show ?thesis
  proof (cases "cols df0")
    case Nil
    with None show ?thesis by (simp add: nrows_def convert_numeric_def)
  next
    case (Cons a cs)
    obtain name c where "a = (name, c)" by (cases a)
    with None Cons len [of c] show ?thesis
      by (simp add: nrows_def convert_numeric_def del: col_length.simps to_numeric.simps)
  qed
qed

lemma close_numeric_convert:
  "map_of (cols (convert_numeric df0)) ''Close'' = Some c \<Longrightarrow> \<exists>xs. c = Num xs"
  by (auto simp: convert_numeric_def dest!: map_of_SomeD split: if_splits)

lemma length_filled_indices:
  "length (take n (concat (replicate ((n + length indices - 1) div length indices) indices))) = n"
proof -
  have "length (concat (replicate r indices)) = r * 12" for r
    by (induction r) (simp_all add: indices_def)
  moreover have "n \<le> ((n + 12 - 1) div 12) * 12" by arith
  moreover have "length indices = 12" by (simp add: indices_def)
  ultimately show ?thesis by simp
qed

lemma set_update_subset: "set (AList.update key v cs) \<subseteq> insert (key, v) (set cs)"
  by (induction cs) auto

lemma nth_update_cases:
  assumes "k < length cs"
  shows "AList.update key v cs ! k = cs ! k
         \<or> (AList.update key v cs ! k = (key, v) \<and> fst (cs ! k) = key
             \<and> map_of cs key = Some (snd (cs ! k)))"
  using assms
proof (induction cs arbitrary: k)
  case Nil
  then show ?case by simp
next
  case (Cons a cs)
  show ?case
  proof (cases "fst a = key")
    case True
    then show ?thesis by (cases k; cases a) auto
  next
    case False
    with Cons show ?thesis by (cases k; cases a) auto
  qed
qed

lemma fill_index_column_props:
  assumes w: "wf_frame False n df" and n: "n = nrows df"
  shows "wf_frame False n (fill_index_column path df)"
    and "map_of (cols (fill_index_column path df)) ''Close'' = map_of (cols df) ''Close''"
    and "recomputes_closeusd (fill_index_column path df) = recomputes_closeusd df"
    and "k < length (cols df) \<Longrightarrow>
         cols (fill_index_column path df) ! k = cols df ! k
         \<or> (col_isna_all (snd (cols df ! k)) \<and> fst (cols (fill_index_column path df) ! k) = fst (cols df ! k)
             \<and> (\<exists>ts. snd (cols (fill_index_column path df) ! k) = Obj ts \<and> length ts = n))"
proof -
  let ?v = "Obj (map Some (take (nrows df)
               (concat (replicate ((nrows df + length indices - 1) div length indices) indices))))"
  have cases: "fill_index_column path df = df
        \<or> (\<exists>c. map_of (cols df) ''Index'' = Some c \<and> col_isna_all c
                \<and> fill_index_column path df = set_column ''Index'' ?v df)"
    by (auto simp: fill_index_column_def Let_def split: option.splits)
  have len: "col_length ?v = n" using length_filled_indices [of "nrows df"] n by simp
  show "wf_frame False n (fill_index_column path df)"
    using cases
  proof
    assume "fill_index_column path df = df"
    with w show ?thesis by simp
  next
    assume "\<exists>c. map_of (cols df) ''Index'' = Some c \<and> col_isna_all c
                \<and> fill_index_column path df = set_column ''Index'' ?v df"
    then obtain c where c: "map_of (cols df) ''Index'' = Some c"
      and e: "fill_index_column path df = set_column ''Index'' ?v df" by blast
    have "set (AList.update ''Index'' ?v (cols df)) \<subseteq> insert (''Index'', ?v) (set (cols df))"
      by (rule set_update_subset)
    with w len show ?thesis
      unfolding e wf_frame_def set_column_def by (auto simp del: col_length.simps)
  qed
  show "map_of (cols (fill_index_column path df)) ''Close'' = map_of (cols df) ''Close''"
    using cases by (auto simp: set_column_def update_conv')
  show "recomputes_closeusd (fill_index_column path df) = recomputes_closeusd df"
    using cases
  proof
    assume "fill_index_column path df = df"
    then show ?thesis by simp
  next
    assume "\<exists>c. map_of (cols df) ''Index'' = Some c \<and> col_isna_all c
                \<and> fill_index_column path df = set_column ''Index'' ?v df"
    then obtain c where c: "map_of (cols df) ''Index'' = Some c"
      and e: "fill_index_column path df = set_column ''Index'' ?v df" by blast
    from c have "''Index'' \<in> fst ` set (cols df)" by (auto dest: map_of_SomeD simp: rev_image_eqI)
    then have "columns (set_column ''Index'' ?v df) = columns df"
      by (simp add: columns_def set_column_def update_keys)
    then show ?thesis
      unfolding e recomputes_closeusd_def by (simp add: set_column_def update_conv')
  qed
  show "cols (fill_index_column path df) ! k = cols df ! k
         \<or> (col_isna_all (snd (cols df ! k)) \<and> fst (cols (fill_index_column path df) ! k) = fst (cols df ! k)
             \<and> (\<exists>ts. snd (cols (fill_index_column path df) ! k) = Obj ts \<and> length ts = n))"
    if k: "k < length (cols df)"
    using cases
  proof
    assume "fill_index_column path df = df"
    then show ?thesis by simp
  next
    assume "\<exists>c. map_of (cols df) ''Index'' = Some c \<and> col_isna_all c
                \<and> fill_index_column path df = set_column ''Index'' ?v df"
    then obtain c where c: "map_of (cols df) ''Index'' = Some c" "col_isna_all c"
      and e: "fill_index_column path df = set_column ''Index'' ?v df" by blast
    from nth_update_cases [OF k, of "''Index''" ?v] c len show ?thesis
      unfolding e set_column_def by auto
  qed
qed


lemma frame_kept_nth:
  assumes "frame_kept f n p df df'" and "k < length (cols df)"
  shows "fst (cols df' ! k) = fst (cols df ! k)
         \<and> ((f \<and> fst (cols df ! k) = ''CloseUSD'')
              \<or> column_kept n p (snd (cols df ! k)) (snd (cols df' ! k)))"
  using assms list_all2_nthD [of _ "cols df" "cols df'" k]
  by (fastforce simp: frame_kept_def)

lemma fix_missing_values_kept:
  assumes w: "wf_frame False (nrows df0) df0"
  shows "\<exists>perm. frame_kept (recomputes_closeusd (convert_numeric df0)) (nrows df0) perm
                  (fill_index_column path (convert_numeric df0)) (fix_missing_values df0 path)"
proof -
  let ?n = "nrows df0"
  let ?df1 = "convert_numeric df0"
  let ?df2 = "fill_index_column path ?df1"
  let ?f = "recomputes_closeusd ?df1"
  have n1: "nrows ?df1 = ?n" by (rule nrows_convert_numeric)
  have w1: "wf_frame False ?n ?df1" using w by (rule wf_convert_numeric)
  note p = fill_index_column_props [OF w1 n1 [symmetric], where path = path]
  have w2: "wf_frame False ?n ?df2" by (rule p(1))
  have r2: "\<not> ?f \<longrightarrow> \<not> recomputes_closeusd ?df2" using p(3) by simp
  have cl: "\<forall>c. map_of (cols ?df2) ''Close'' = Some c \<longrightarrow> (\<exists>xs. c = Num xs)"
    unfolding p(2) using close_numeric_convert by blast
  have "wf_frame ?f ?n ?df2" using w2 by (auto simp: wf_frame_def)
  then have k0: "frame_kept ?f ?n [0..<?n] ?df2 ?df2" by (rule frame_kept_refl)
  from frame_kept_fold_fill_column [OF w2 r2 cl k0, of "columns ?df2"]
  show ?thesis by (auto simp: fix_missing_values_def Let_def)
qed


lemma fill_index_column_shape:
  "length (cols (fill_index_column path df)) = length (cols df)
   \<and> index (fill_index_column path df) = index df"
proof -
  have "length (AList.update ''Index'' v (cols df)) = length (cols df)"
    if "map_of (cols df) ''Index'' = Some c" for v c
  proof -
    from that have "''Index'' \<in> fst ` set (cols df)" by (auto dest: map_of_SomeD simp: rev_image_eqI)
    then have "map fst (AList.update ''Index'' v (cols df)) = map fst (cols df)"
      by (simp add: update_keys)
    then show ?thesis by (metis length_map)
  qed
  then show ?thesis
    by (auto simp: fill_index_column_def set_column_def Let_def split: option.splits)
qed

lemma column_kept_fill:
  assumes "col_length c = n"
  shows "column_kept n [0..<n] c (map_column bfill bfill (map_column ffill ffill c))"
  using assms by (cases c) (simp_all add: rows_kept_id keeps_observed_ffill_bfill)

lemma column_kept_cells:
  assumes "column_kept n perm (Num xs) c'"
  shows "col_length c' = n
         \<and> (\<forall>j < n. xs ! (perm ! j) \<noteq> None \<longrightarrow> keys c' ! j = map_option Flt (xs ! (perm ! j)))"
  using assms by (cases c') (auto simp: rows_kept_def)

text \<open>
  Claim C4, as amended.  \<open>fix_missing_values\<close> may sort the rows by date, and nothing
  else happens to an observed cell: in a well-formed table every numeric column keeps
  its position and its name, and each of its observed cells has the same value in the
  row it has moved to.  The one exception is the column \<open>CloseUSD\<close> of a table that is
  handed to the currency conversion (it has a \<open>Close\<close> and a \<open>Currency\<close> column and a
  missing \<open>CloseUSD\<close> cell); then all other columns are still kept.  In
  \<open>create_combined_dataset\<close> the forward and backward fill keep every observed cell of
  every column in place, and the written table has every column whose name does not
  contain \<open>Currency\<close> with its observed cells unchanged, the rows sorted by date.
\<close>

theorem fill_keeps_observed:
  "(wf_frame False (nrows df0) df0 \<and> k < length (cols df0) \<and> cols df0 ! k = (name, Num xs)
      \<and> (name \<noteq> ''CloseUSD'' \<or> \<not> recomputes_closeusd (convert_numeric df0))
    \<longrightarrow> (\<exists>perm c'. valid_perm (nrows df0) perm
           \<and> index (fix_missing_values df0 path) = map_option (take_rows perm) (index df0)
           \<and> cols (fix_missing_values df0 path) ! k = (name, c')
           \<and> col_length c' = nrows df0
           \<and> (\<forall>j < nrows df0. xs ! (perm ! j) \<noteq> None
                  \<longrightarrow> keys c' ! j = map_option Flt (xs ! (perm ! j)))))
   \<and> (wf_frame False (nrows final_df) final_df \<and> i < length (cols final_df)
      \<and> cols final_df ! i = (metric, c)
    \<longrightarrow> (\<exists>c'. cols (fill_missing final_df) ! i = (metric, c')
              \<and> column_kept (nrows final_df) [0..<nrows final_df] c c')
        \<and> (\<not> contains metric ''Currency''
            \<longrightarrow> (\<exists>perm c'. valid_perm (nrows final_df) perm
                   \<and> index (final_table final_df) = map_option (take_rows perm) (index final_df)
                   \<and> (metric, c') \<in> set (cols (final_table final_df))
                   \<and> column_kept (nrows final_df) perm c c')))"
proof (intro conjI impI)
  assume a: "wf_frame False (nrows df0) df0 \<and> k < length (cols df0) \<and> cols df0 ! k = (name, Num xs)
      \<and> (name \<noteq> ''CloseUSD'' \<or> \<not> recomputes_closeusd (convert_numeric df0))"
  let ?n = "nrows df0"
  let ?df1 = "convert_numeric df0"
  let ?df2 = "fill_index_column path ?df1"
  let ?out = "fix_missing_values df0 path"
  let ?f = "recomputes_closeusd ?df1"
  from a have w: "wf_frame False ?n df0" and k: "k < length (cols df0)"
    and col: "cols df0 ! k = (name, Num xs)" and ex: "name \<noteq> ''CloseUSD'' \<or> \<not> ?f"
    by simp_all
  from k col have "(name, Num xs) \<in> set (cols df0)" by (metis nth_mem)
  with w have lx: "length xs = ?n" by (auto simp: wf_frame_def)
  have k1: "k < length (cols ?df1)" "cols ?df1 ! k = (name, Num xs)"
    using k col by (simp_all add: convert_numeric_def)
  have sh: "length (cols ?df2) = length (cols ?df1)" "index ?df2 = index df0"
    using fill_index_column_shape [of path ?df1] by (simp_all add: convert_numeric_def)
  have w1: "wf_frame False ?n ?df1" using w by (rule wf_convert_numeric)
  from fill_index_column_props(4) [OF w1 nrows_convert_numeric [symmetric] k1(1), where path = path] k1(2)
  have c2: "cols ?df2 ! k = (name, Num xs)
            \<or> (col_isna_all (Num xs) \<and> fst (cols ?df2 ! k) = name
                \<and> (\<exists>ts. snd (cols ?df2 ! k) = Obj ts \<and> length ts = ?n))"
    by auto
  from fix_missing_values_kept [OF w, of path]
  obtain perm where K: "frame_kept ?f ?n perm ?df2 ?out" by blast
  then have v: "valid_perm ?n perm"
    and idx: "index ?out = map_option (take_rows perm) (index df0)"
    using sh(2) by (simp_all add: frame_kept_def)
  from frame_kept_nth [OF K] k1(1) sh(1)
  have nm: "fst (cols ?out ! k) = fst (cols ?df2 ! k)"
    and kept: "(?f \<and> fst (cols ?df2 ! k) = ''CloseUSD'')
               \<or> column_kept ?n perm (snd (cols ?df2 ! k)) (snd (cols ?out ! k))"
    by simp_all
  from c2 have nm2: "fst (cols ?df2 ! k) = name" by auto
  with kept ex have ck: "column_kept ?n perm (snd (cols ?df2 ! k)) (snd (cols ?out ! k))" by auto
  have cells: "col_length (snd (cols ?out ! k)) = ?n
         \<and> (\<forall>j < ?n. xs ! (perm ! j) \<noteq> None
               \<longrightarrow> keys (snd (cols ?out ! k)) ! j = map_option Flt (xs ! (perm ! j)))"
    using c2
  proof
    assume "cols ?df2 ! k = (name, Num xs)"
    with ck show ?thesis using column_kept_cells [of ?n perm xs "snd (cols ?out ! k)"] by simp
  next
    assume b: "col_isna_all (Num xs) \<and> fst (cols ?df2 ! k) = name
                \<and> (\<exists>ts. snd (cols ?df2 ! k) = Obj ts \<and> length ts = ?n)"
    have "xs ! (perm ! j) = None" if "j < ?n" for j
    proof -
      from v that have "perm ! j < ?n" by (rule valid_perm_nth)
      with lx have "xs ! (perm ! j) \<in> set xs" by simp
      with b show ?thesis by simp
    qed
    moreover from ck have "col_length (snd (cols ?out ! k)) = ?n" by (rule column_kept_length)
    ultimately show ?thesis by simp
  qed
  from nm nm2 have "cols ?out ! k = (name, snd (cols ?out ! k))"
    by (metis prod.collapse)
  with v idx cells
  show "\<exists>perm c'. valid_perm ?n perm
           \<and> index ?out = map_option (take_rows perm) (index df0)
           \<and> cols ?out ! k = (name, c')
           \<and> col_length c' = ?n
           \<and> (\<forall>j < ?n. xs ! (perm ! j) \<noteq> None
                  \<longrightarrow> keys c' ! j = map_option Flt (xs ! (perm ! j)))"
    by blast
next
  assume a: "wf_frame False (nrows final_df) final_df \<and> i < length (cols final_df)
      \<and> cols final_df ! i = (metric, c)"
  then have "(metric, c) \<in> set (cols final_df)" by (metis nth_mem)
  with a have "col_length c = nrows final_df" by (auto simp: wf_frame_def)
  then have "column_kept (nrows final_df) [0..<nrows final_df] c
               (map_column bfill bfill (map_column ffill ffill c))"
    by (rule column_kept_fill)
  moreover have "cols (fill_missing final_df) ! i
                   = (metric, map_column bfill bfill (map_column ffill ffill c))"
    using a by (simp add: fill_missing_def)
  ultimately show "\<exists>c'. cols (fill_missing final_df) ! i = (metric, c')
              \<and> column_kept (nrows final_df) [0..<nrows final_df] c c'"
    by blast
next
  assume a: "wf_frame False (nrows final_df) final_df \<and> i < length (cols final_df)
      \<and> cols final_df ! i = (metric, c)"
    and nc: "\<not> contains metric ''Currency''"
  let ?n = "nrows final_df"
  let ?s = "sort_index final_df"
  from a have w: "wf_frame False ?n final_df" and i: "i < length (cols final_df)"
    and col: "cols final_df ! i = (metric, c)" by simp_all
  from frame_kept_sort_index [OF w]
  obtain q where K: "frame_kept False ?n q final_df ?s" by blast
  then have v: "valid_perm ?n q" and idx: "index ?s = map_option (take_rows q) (index final_df)"
    by (simp_all add: frame_kept_def)
  from frame_kept_nth [OF K i] col
  have s: "fst (cols ?s ! i) = metric" "column_kept ?n q c (snd (cols ?s ! i))" by simp_all
  let ?c' = "map_column bfill bfill (map_column ffill ffill (snd (cols ?s ! i)))"
  from s(2) have "col_length (snd (cols ?s ! i)) = ?n" by (rule column_kept_length)
  then have "column_kept ?n [0..<?n] (snd (cols ?s ! i)) ?c'" by (rule column_kept_fill)
  with s(2) have "column_kept ?n (map ((!) q) [0..<?n]) c ?c'"
    using valid_perm_id by (rule column_kept_comp)
  moreover from v have "map ((!) q) [0..<?n] = q" by (simp add: valid_perm_def comp_id_right)
  ultimately have ck: "column_kept ?n q c ?c'" by simp
  have li: "i < length (cols ?s)"
    using K i by (auto simp: frame_kept_def dest: list_all2_lengthD)
  then have "cols (fill_missing ?s) ! i = (fst (cols ?s ! i), ?c')"
    by (simp add: fill_missing_def case_prod_unfold)
  moreover have "i < length (cols (fill_missing ?s))"
    using li by (simp add: fill_missing_def)
  then have "cols (fill_missing ?s) ! i \<in> set (cols (fill_missing ?s))" by (rule nth_mem)
  ultimately have "(metric, ?c') \<in> set (cols (fill_missing ?s))"
    using s(1) by simp
  with nc have "(metric, ?c') \<in> set (cols (final_table final_df))"
    by (simp add: final_table_def remove_currency_columns_cols)
  moreover have "index (final_table final_df) = map_option (take_rows q) (index final_df)"
    using idx by (simp add: final_table_def remove_currency_columns_def fill_missing_def Let_def)
  ultimately show "\<exists>perm c'. valid_perm ?n perm
                   \<and> index (final_table final_df) = map_option (take_rows perm) (index final_df)
                   \<and> (metric, c') \<in> set (cols (final_table final_df))
                   \<and> column_kept ?n perm c c'"
    using v ck by blast
qed


theorem fill_keeps_observed_witness:
  "wf_frame False (nrows \<lparr>index = Some [Some 2, Some 1],
        cols = [(''Open'', Num [Some 3, None]), (''Close'', Num [Some 100, Some 200]),
                (''Currency'', Obj [Some ''USD'', Some ''USD'']), (''CloseUSD'', Num [Some 5, None])]\<rparr>)
      \<lparr>index = Some [Some 2, Some 1],
        cols = [(''Open'', Num [Some 3, None]), (''Close'', Num [Some 100, Some 200]),
                (''Currency'', Obj [Some ''USD'', Some ''USD'']), (''CloseUSD'', Num [Some 5, None])]\<rparr>
   \<and> recomputes_closeusd (convert_numeric \<lparr>index = Some [Some 2, Some 1],
        cols = [(''Open'', Num [Some 3, None]), (''Close'', Num [Some 100, Some 200]),
                (''Currency'', Obj [Some ''USD'', Some ''USD'']), (''CloseUSD'', Num [Some 5, None])]\<rparr>)
   \<and> (\<exists>perm c'. valid_perm 2 perm
         \<and> cols (fix_missing_values \<lparr>index = Some [Some 2, Some 1],
              cols = [(''Open'', Num [Some 3, None]), (''Close'', Num [Some 100, Some 200]),
                      (''Currency'', Obj [Some ''USD'', Some ''USD'']),
                      (''CloseUSD'', Num [Some 5, None])]\<rparr> ''GDAXI_processed.csv'') ! 0 = (''Open'', c')
         \<and> (perm ! 0 = 0 \<and> keys c' ! 0 = Some (Flt 3) \<or> perm ! 1 = 0 \<and> keys c' ! 1 = Some (Flt 3)))
   \<and> (\<exists>c'. cols (fill_missing \<lparr>index = Some [Some 2, Some 1],
                                 cols = [(''AVG Close'', Num [Some 7, None])]\<rparr>) ! 0 = (''AVG Close'', c')
         \<and> column_kept 2 [0..<2] (Num [Some 7, None]) c')
   \<and> (\<exists>perm c'. valid_perm 2 perm
         \<and> (''AVG Close'', c') \<in> set (cols (final_table \<lparr>index = Some [Some 2, Some 1],
                                 cols = [(''AVG Close'', Num [Some 7, None])]\<rparr>))
         \<and> column_kept 2 perm (Num [Some 7, None]) c')"
proof -
  let ?df0 = "\<lparr>index = Some [Some 2, Some 1],
        cols = [(''Open'', Num [Some 3, None]), (''Close'', Num [Some 100, Some 200]),
                (''Currency'', Obj [Some ''USD'', Some ''USD'']), (''CloseUSD'', Num [Some 5, None])]\<rparr>"
  let ?fdf = "\<lparr>index = Some [Some 2, Some 1], cols = [(''AVG Close'', Num [Some 7, None])]\<rparr>"
  have n: "nrows ?df0 = 2" "nrows ?fdf = 2" by (simp_all add: nrows_def)
  have w: "wf_frame False (nrows ?df0) ?df0" "wf_frame False (nrows ?fdf) ?fdf"
    by (simp_all add: wf_frame_def nrows_def)
  have r: "recomputes_closeusd (convert_numeric ?df0)"
    by (simp add: recomputes_closeusd_def convert_numeric_def columns_def isna_any_def)
  note t = fill_keeps_observed [where ?df0.0 = ?df0 and k = 0 and name = "''Open''"
      and xs = "[Some 3, None]" and path = "''GDAXI_processed.csv''" and final_df = ?fdf and i = 0
      and metric = "''AVG Close''" and c = "Num [Some 7, None]"]
  from t [THEN conjunct1] w(1)
  have "\<exists>perm c'. valid_perm 2 perm
          \<and> cols (fix_missing_values ?df0 ''GDAXI_processed.csv'') ! 0 = (''Open'', c')
          \<and> (\<forall>j < 2. [Some (3::real), None] ! (perm ! j) \<noteq> None
                \<longrightarrow> keys c' ! j = map_option Flt ([Some (3::real), None] ! (perm ! j)))"
    unfolding n by simp blast
  then obtain perm c' where p: "valid_perm 2 perm"
    "cols (fix_missing_values ?df0 ''GDAXI_processed.csv'') ! 0 = (''Open'', c')"
    "\<forall>j < 2. [Some (3::real), None] ! (perm ! j) \<noteq> None
        \<longrightarrow> keys c' ! j = map_option Flt ([Some (3::real), None] ! (perm ! j))"
    by blast
  from p(1) have "0 \<in> set perm" "length perm = 2" by (simp_all add: valid_perm_def)
  then obtain j where "j < 2" "perm ! j = 0" by (auto simp: in_set_conv_nth)
  then have "perm ! 0 = 0 \<or> perm ! 1 = 0" by (cases j) auto
  with p(3) have "perm ! 0 = 0 \<and> keys c' ! 0 = Some (Flt 3) \<or> perm ! 1 = 0 \<and> keys c' ! 1 = Some (Flt 3)"
    by auto
  with p(1,2) have one: "\<exists>perm c'. valid_perm 2 perm
         \<and> cols (fix_missing_values ?df0 ''GDAXI_processed.csv'') ! 0 = (''Open'', c')
         \<and> (perm ! 0 = 0 \<and> keys c' ! 0 = Some (Flt 3) \<or> perm ! 1 = 0 \<and> keys c' ! 1 = Some (Flt 3))"
    by blast
  have nc: "\<not> contains ''AVG Close'' ''Currency''" by simp
  have h2: "wf_frame False (nrows ?fdf) ?fdf \<and> 0 < length (cols ?fdf)
              \<and> cols ?fdf ! 0 = (''AVG Close'', Num [Some 7, None])"
    using w(2) by simp
  note t2 = t [THEN conjunct2, THEN mp, OF h2]
  have two: "\<exists>c'. cols (fill_missing ?fdf) ! 0 = (''AVG Close'', c')
         \<and> column_kept 2 [0..<2] (Num [Some 7, None]) c'"
    using t2 [THEN conjunct1] unfolding n .
  have three: "\<exists>perm c'. valid_perm 2 perm
         \<and> (''AVG Close'', c') \<in> set (cols (final_table ?fdf))
         \<and> column_kept 2 perm (Num [Some 7, None]) c'"
    using t2 [THEN conjunct2, THEN mp, OF nc] unfolding n by blast
  from w(1) r one two three show ?thesis by blast
qed

text \<open>
  Claim C4 as stated fails on the \<open>CloseUSD\<close> branch of \<open>fix_missing_values\<close>: with a
  \<open>Close\<close> and a \<open>Currency\<close> column and one missing \<open>CloseUSD\<close> cell, the whole
  \<open>CloseUSD\<close> column is computed again from \<open>Close\<close>, and the observed value 5 of day 1
  becomes 100.
\<close>

theorem closeusd_overwritten_counterexample:
  "cols (fix_missing_values
          \<lparr>index = Some [Some 1, Some 2],
             cols = [(''Close'', Num [Some 100, Some 200]),
                     (''Currency'', Obj [Some ''USD'', Some ''USD'']),
                     (''CloseUSD'', Num [Some 5, None])]\<rparr> ''GDAXI_processed.csv'') ! 2
     = (''CloseUSD'', Num [Some 100, Some 200])
   \<and> \<not> keeps_observed [Some 5, None] [Some (100::real), Some 200]"
proof -
  have "\<not> keeps_observed [Some 5, None] [Some (100::real), Some 200]"
    by (auto simp: keeps_observed_def)
  moreover have "cols (fix_missing_values
          \<lparr>index = Some [Some 1, Some 2],
             cols = [(''Close'', Num [Some 100, Some 200]),
                     (''Currency'', Obj [Some ''USD'', Some ''USD'']),
                     (''CloseUSD'', Num [Some 5, None])]\<rparr> ''GDAXI_processed.csv'') ! 2
     = (''CloseUSD'', Num [Some 100, Some 200])"
    by code_simp
  ultimately show ?thesis by simp
qed

text \<open>
  Claim C5.  The claim asks for interpolation over the dates.  \<open>fix_missing_values\<close>
  interpolates with \<^verbatim>\<open>method='linear'\<close>, which takes the row position as the coordinate.
  On the claim's own example (days 1 to 5, all of them rows) both give 10, 20, 30.  On a
  table with rows for days 1, 2 and 5 only, observed 0 on day 1 and 40 on day 5, the code
  fills day 2 with 20, where interpolation over the dates gives 10.
\<close>

theorem fix_missing_values_interpolates_by_position:
  "cols (fix_missing_values
          \<lparr>index = Some [Some 1, Some 2, Some 3, Some 4, Some 5],
             cols = [(''Close'', Num [Some 0, None, None, None, Some 40])]\<rparr> ''GDAXI_processed.csv'')
     = [(''Close'', Num [Some 0, Some 10, Some 20, Some 30, Some 40])]
   \<and> cols (fix_missing_values
          \<lparr>index = Some [Some 1, Some 2, Some 5],
             cols = [(''Close'', Num [Some 0, None, Some 40])]\<rparr> ''GDAXI_processed.csv'')
     = [(''Close'', Num [Some 0, Some 20, Some 40])]
   \<and> spec_interpolate_by_date [1, 2, 5] [Some 0, None, Some 40] = [Some 0, Some 10, Some 40]"
  by code_simp

section \<open>Properties of the combined dataset\<close>

lemma fold_add_feature_column_names:
  "fst ` set (fold (add_feature_column path) cs acc)
     = fst ` set acc \<union> column_name path ` (fst ` set cs - {''Miner Revenue (USD)''})"
proof (induction cs arbitrary: acc)
  case Nil
  then show ?case by simp
next
  case (Cons p cs)
  obtain col c where p: "p = (col, c)" by (cases p)
  show ?case
  proof (cases "col = ''Miner Revenue (USD)''")
    case True
    then show ?thesis
      using Cons.IH [of acc] by (auto simp: p add_feature_column_def)
  next
    case False
    then show ?thesis
      using Cons.IH [of "AList.update (column_name path col) c acc"]
      by (auto simp: p add_feature_column_def dom_update)
  qed
qed

text \<open>
  Claim C9.  Every column that \<open>create_combined_dataset\<close> adds from a feature file is
  named by the feature type of the file, one space, and the metric name; the only
  exceptions are \<open>BTC/USD\<close> and \<open>Gold/BTC Ratio\<close> of a file whose path contains
  \<open>currency_metrics.csv\<close>, which keep their bare names.  (The \<open>Miner Revenue (USD)\<close>
  column is not added at all.)  The columns from the averaged exchanges are the seven
  standard metrics under the prefix \<open>AVG\<close> and one space.
\<close>

theorem column_naming:
  "(feature_df path df = Some f \<longrightarrow>
      set (columns f) =
        (\<lambda>col. if contains (lower path) ''currency_metrics.csv''
                    \<and> (col = ''BTC/USD'' \<or> col = ''Gold/BTC Ratio'')
                 then col
                 else feature_type (basename path) @ '' '' @ col)
          ` (set (columns df) - {''Miner Revenue (USD)''}))
   \<and> (exchange_df avg = Some e \<longrightarrow> columns e = map (\<lambda>col. ''AVG '' @ col) standard_columns)"
proof -
  have "set (columns f) = column_name path ` (set (columns df) - {''Miner Revenue (USD)''})"
    if "feature_df path df = Some f"
  proof -
    from that have "cols f = fold (add_feature_column path) (cols df) []"
      by (auto simp: feature_df_def split: if_splits option.splits)
    then show ?thesis
      using fold_add_feature_column_names [of path "cols df" "[]"]
      by (simp add: columns_def)
  qed
  moreover have "columns e = map (\<lambda>col. ''AVG '' @ col) standard_columns"
    if "exchange_df avg = Some e"
    using that
    by (auto simp: exchange_df_def columns_def exchange_column_def split: if_splits option.splits)
  ultimately show ?thesis
    unfolding column_name_def by blast
qed

theorem column_naming_witness:
  "feature_df ''datasets/additional_features/currency_metrics.csv''
      \<lparr>index = Some [Some 1],
         cols = [(''US Dollar Index'', Num [Some 104]), (''BTC/USD'', Num [Some 42000]),
                 (''Gold/BTC Ratio'', Num [None])]\<rparr>
     = Some \<lparr>index = Some [Some 1],
         cols = [(''currency US Dollar Index'', Num [Some 104]), (''BTC/USD'', Num [Some 42000]),
                 (''Gold/BTC Ratio'', Num [None])]\<rparr>
   \<and> exchange_df \<lparr>index = Some [Some 1], cols = [(''Close'', Num [Some 7])]\<rparr>
     = Some \<lparr>index = Some [Some 1],
         cols = [(''AVG Open'', Num [None]), (''AVG High'', Num [None]), (''AVG Low'', Num [None]),
                 (''AVG Close'', Num [Some 7]), (''AVG Adj Close'', Num [Some 7]),
                 (''AVG Volume'', Num [None]), (''AVG CloseUSD'', Num [None])]\<rparr>
   \<and> set (columns \<lparr>index = Some [Some 1],
         cols = [(''currency US Dollar Index'', Num [Some 104]), (''BTC/USD'', Num [Some 42000]),
                 (''Gold/BTC Ratio'', Num [None])]\<rparr>)
      = {''currency US Dollar Index'', ''BTC/USD'', ''Gold/BTC Ratio''}"
proof -
  have a: "feature_df ''datasets/additional_features/currency_metrics.csv''
      \<lparr>index = Some [Some 1],
         cols = [(''US Dollar Index'', Num [Some 104]), (''BTC/USD'', Num [Some 42000]),
                 (''Gold/BTC Ratio'', Num [None])]\<rparr>
     = Some \<lparr>index = Some [Some 1],
         cols = [(''currency US Dollar Index'', Num [Some 104]), (''BTC/USD'', Num [Some 42000]),
                 (''Gold/BTC Ratio'', Num [None])]\<rparr>"
    by code_simp
  have b: "exchange_df \<lparr>index = Some [Some 1], cols = [(''Close'', Num [Some 7])]\<rparr>
     = Some \<lparr>index = Some [Some 1],
         cols = [(''AVG Open'', Num [None]), (''AVG High'', Num [None]), (''AVG Low'', Num [None]),
                 (''AVG Close'', Num [Some 7]), (''AVG Adj Close'', Num [Some 7]),
                 (''AVG Volume'', Num [None]), (''AVG CloseUSD'', Num [None])]\<rparr>"
    by code_simp
  from column_naming [of "''datasets/additional_features/currency_metrics.csv''" _ _ _ _] a b
  show ?thesis by (simp add: columns_def)
qed

lemma contains_currency_prefix: "contains (''currency'' @ m) ''Currency'' = contains m ''Currency''"
  by simp


lemma remove_currency_columns_names:
  "name \<in> set (columns (remove_currency_columns df))
     \<longleftrightarrow> name \<in> set (columns df) \<and> \<not> contains name ''Currency''"
  unfolding columns_def remove_currency_columns_cols by force

text \<open>
  Claim C10.  Just before the table is written, exactly the columns whose name contains
  \<open>Currency\<close> (case-sensitive) are dropped, so the written table has no such column
  whatever the input; every other column stays, in order.  The lowercase \<open>currency\<close> is
  no match: a column that begins with it is retained whenever the rest of its name does
  not contain \<open>Currency\<close>.
\<close>

theorem currency_columns_dropped:
  "(\<forall>name \<in> set (columns (remove_currency_columns df)). \<not> contains name ''Currency'')
   \<and> cols (remove_currency_columns df) = filter (\<lambda>(name, c). \<not> contains name ''Currency'') (cols df)
   \<and> (''currency'' @ m \<in> set (columns (remove_currency_columns df))
        \<longleftrightarrow> ''currency'' @ m \<in> set (columns df) \<and> \<not> contains m ''Currency'')"
proof -
  have "\<forall>name \<in> set (columns (remove_currency_columns df)). \<not> contains name ''Currency''"
    by (simp add: remove_currency_columns_names)
  moreover have "''currency'' @ m \<in> set (columns (remove_currency_columns df))
        \<longleftrightarrow> ''currency'' @ m \<in> set (columns df) \<and> \<not> contains m ''Currency''"
    unfolding remove_currency_columns_names contains_currency_prefix ..
  ultimately show ?thesis
    using remove_currency_columns_cols [of df] by blast
qed

theorem currency_columns_dropped_witness:
  "''currency US Dollar Index'' \<in> set (columns (remove_currency_columns
       \<lparr>index = Some [Some 1],
          cols = [(''AVG Close'', Num [Some 7]), (''volatility Currency_DX'', Num [Some 2]),
                  (''currency US Dollar Index'', Num [Some 3])]\<rparr>))
   \<and> ''volatility Currency_DX'' \<notin> set (columns (remove_currency_columns
       \<lparr>index = Some [Some 1],
          cols = [(''AVG Close'', Num [Some 7]), (''volatility Currency_DX'', Num [Some 2]),
                  (''currency US Dollar Index'', Num [Some 3])]\<rparr>))
   \<and> columns (remove_currency_columns
       \<lparr>index = Some [Some 1],
          cols = [(''AVG Close'', Num [Some 7]), (''volatility Currency_DX'', Num [Some 2]),
                  (''currency US Dollar Index'', Num [Some 3])]\<rparr>)
      = [''AVG Close'', ''currency US Dollar Index'']"
  using currency_columns_dropped [of "\<lparr>index = Some [Some 1],
          cols = [(''AVG Close'', Num [Some 7]), (''volatility Currency_DX'', Num [Some 2]),
                  (''currency US Dollar Index'', Num [Some 3])]\<rparr>" "'' US Dollar Index''"]
  by (simp add: columns_def)


section \<open>Properties of the averaged exchanges\<close>

subsection \<open>What the loops accumulate\<close>

lemma fold_add_cell:
  assumes "distinct cs"
  shows "fst (fold (add_cell idx row) cs acc) col i
           = fst acc col i
             + sum_list (if i = idx \<and> col \<in> set cs \<and> col \<noteq> ''Date'' then valid [snd row col] else [])
         \<and> snd (fold (add_cell idx row) cs acc) col i
           = snd acc col i
             + length (if i = idx \<and> col \<in> set cs \<and> col \<noteq> ''Date'' then valid [snd row col] else [])"
  using assms
proof (induction cs arbitrary: acc)
  case Nil
  then show ?case by simp
next
  case (Cons c cs)
  obtain S C where acc: "acc = (S, C)" by (cases acc)
  from Cons.prems have d: "distinct cs" "c \<notin> set cs" by simp_all
  show ?case
    using Cons.IH [OF d(1), of "add_cell idx row c acc"] d(2)
    by (cases "snd row c") (auto simp: acc add_cell_def)
qed

lemma fold_add_row:
  assumes "distinct cs"
  shows "fst (fold (add_row to_idx cs) rs acc) col i
           = fst acc col i
             + sum_list (concat (map (\<lambda>row. if to_idx (fst row) = Some i \<and> col \<in> set cs \<and> col \<noteq> ''Date''
                                            then valid [snd row col] else []) rs))
         \<and> snd (fold (add_row to_idx cs) rs acc) col i
           = snd acc col i
             + length (concat (map (\<lambda>row. if to_idx (fst row) = Some i \<and> col \<in> set cs \<and> col \<noteq> ''Date''
                                            then valid [snd row col] else []) rs))"
proof (induction rs arbitrary: acc)
  case Nil
  then show ?case by simp
next
  case (Cons r rs)
  show ?case
  proof (cases "to_idx (fst r)")
    case None
    then show ?thesis
      using Cons.IH [of acc] by (simp add: add_row_def)
  next
    case (Some idx)
    then show ?thesis
      using Cons.IH [of "fold (add_cell idx r) cs acc"] fold_add_cell [OF assms, of idx r acc col i]
      by (simp add: add_row_def)
  qed
qed

lemma fold_add_exchange:
  assumes "\<forall>(name, df) \<in> set ed. distinct (numeric_cols df)"
  shows "fst (fold (add_exchange all_cols to_idx) ed acc) col i
           = fst acc col i
             + sum_list (concat (map (\<lambda>(name, df). concat (map (\<lambda>row.
                  if to_idx (fst row) = Some i
                     \<and> col \<in> set (filter (\<lambda>c. c \<in> set all_cols) (numeric_cols df)) \<and> col \<noteq> ''Date''
                  then valid [snd row col] else []) (rows df))) ed))
         \<and> snd (fold (add_exchange all_cols to_idx) ed acc) col i
           = snd acc col i
             + length (concat (map (\<lambda>(name, df). concat (map (\<lambda>row.
                  if to_idx (fst row) = Some i
                     \<and> col \<in> set (filter (\<lambda>c. c \<in> set all_cols) (numeric_cols df)) \<and> col \<noteq> ''Date''
                  then valid [snd row col] else []) (rows df))) ed))"
  using assms
proof (induction ed arbitrary: acc)
  case Nil
  then show ?case by simp
next
  case (Cons e ed)
  obtain name df where e: "e = (name, df)" by (cases e)
  from Cons.prems have d: "distinct (filter (\<lambda>c. c \<in> set all_cols) (numeric_cols df))"
    and rest: "\<forall>(name, df) \<in> set ed. distinct (numeric_cols df)"
    by (auto simp: e)
  show ?case
    using Cons.IH [OF rest, of "add_exchange all_cols to_idx e acc"]
      fold_add_row [OF d, of to_idx "rows df" acc col i]
    by (simp add: e add_exchange_def)
qed

lemma date_to_idx_iff:
  assumes "distinct dates" and "i < length dates"
  shows "date_to_idx dates d = Some i \<longleftrightarrow> d = dates ! i"
proof
  assume "date_to_idx dates d = Some i"
  then have "(d, i) \<in> set (zip dates [0..<length dates])"
    unfolding date_to_idx_def by (rule map_of_SomeD)
  then obtain k where "k < length dates" "dates ! k = d" "[0..<length dates] ! k = i"
    by (auto simp: set_zip)
  then show "d = dates ! i" by simp
next
  assume "d = dates ! i"
  then show "date_to_idx dates d = Some i"
    using map_of_zip_nth [of dates "[0..<length dates]" i] assms
    by (simp add: date_to_idx_def)
qed

lemma valid_map_filter:
  "concat (map (\<lambda>row. if P row then valid [f row] else []) rs) = valid (map f (filter P rs))"
proof (induction rs)
  case Nil
  then show ?case by simp
next
  case (Cons r rs)
  then show ?case by (cases "f r") simp_all
qed

lemma distinct_all_dates: "distinct (all_dates ed)"
  by (simp add: all_dates_def)

lemma sorted_all_dates: "sorted (all_dates ed)"
  by (simp add: all_dates_def)

lemma set_all_dates: "set (all_dates ed) = (\<Union>(name, df) \<in> set ed. fst ` set (rows df))"
  by (auto simp: all_dates_def)

lemma set_all_columns:
  assumes "is_set_order set_order"
  shows "set (all_columns set_order ed) = (\<Union>(name, df) \<in> set ed. set (numeric_cols df))"
    and "distinct (all_columns set_order ed)"
proof -
  let ?xs = "remdups (concat (map (\<lambda>(name, df). numeric_cols df) ed))"
  have "distinct ?xs" by simp
  with assms have "set (set_order ?xs) = set ?xs" "distinct (set_order ?xs)"
    unfolding is_set_order_def by blast+
  then show "set (all_columns set_order ed) = (\<Union>(name, df) \<in> set ed. set (numeric_cols df))"
    and "distinct (all_columns set_order ed)"
    by (auto simp: all_columns_def)
qed

lemma accumulated:
  assumes cols: "\<forall>(name, df) \<in> set ed. distinct (numeric_cols df) \<and> ''Date'' \<notin> set (numeric_cols df)"
    and sup: "(\<Union>(name, df) \<in> set ed. set (numeric_cols df)) \<subseteq> set all_cols"
    and i: "i < length (all_dates ed)"
  defines "acc \<equiv> fold (add_exchange all_cols (date_to_idx (all_dates ed))) ed (\<lambda>col i. 0, \<lambda>col i. 0)"
  shows "fst acc col i = sum_list (observed_values ed col (all_dates ed ! i))"
    and "snd acc col i = length (observed_values ed col (all_dates ed ! i))"
proof -
  let ?to_idx = "date_to_idx (all_dates ed)"
  let ?d = "all_dates ed ! i"
  have d: "\<forall>(name, df) \<in> set ed. distinct (numeric_cols df)" using cols by auto
  have one: "concat (map (\<lambda>row.
                  if ?to_idx (fst row) = Some i
                     \<and> col \<in> set (filter (\<lambda>c. c \<in> set all_cols) (numeric_cols df)) \<and> col \<noteq> ''Date''
                  then valid [snd row col] else []) (rows df))
             = (if col \<in> set (numeric_cols df)
                then valid (map (\<lambda>row. snd row col) (filter (\<lambda>row. fst row = ?d) (rows df)))
                else [])"
    if "(name, df) \<in> set ed" for name df
  proof (cases "col \<in> set (numeric_cols df)")
    case False
    then show ?thesis by simp
  next
    case True
    with that cols sup have "col \<in> set all_cols" "col \<noteq> ''Date''" by auto
    with True show ?thesis
      by (simp add: date_to_idx_iff [OF distinct_all_dates i] valid_map_filter)
  qed
  have all: "concat (map (\<lambda>(name, df). concat (map (\<lambda>row.
                  if ?to_idx (fst row) = Some i
                     \<and> col \<in> set (filter (\<lambda>c. c \<in> set all_cols) (numeric_cols df)) \<and> col \<noteq> ''Date''
                  then valid [snd row col] else []) (rows df))) ed)
             = observed_values ed col ?d"
    unfolding observed_values_def
  proof (rule arg_cong [where f = concat], rule map_cong [OF refl])
    fix x assume x: "x \<in> set ed"
    obtain name df where xe: "x = (name, df)" by (cases x)
    from x have "(name, df) \<in> set ed" by (simp add: xe)
    from one [OF this] show "(case x of (name, df) \<Rightarrow> concat (map (\<lambda>row.
                  if ?to_idx (fst row) = Some i
                     \<and> col \<in> set (filter (\<lambda>c. c \<in> set all_cols) (numeric_cols df)) \<and> col \<noteq> ''Date''
                  then valid [snd row col] else []) (rows df)))
        = (case x of (name, df) \<Rightarrow>
                    if col \<in> set (numeric_cols df)
                    then valid (map (\<lambda>row. snd row col) (filter (\<lambda>row. fst row = ?d) (rows df)))
                    else [])"
      unfolding xe split_conv .
  qed
  show "fst acc col i = sum_list (observed_values ed col ?d)"
    and "snd acc col i = length (observed_values ed col ?d)"
    using fold_add_exchange [OF d, of all_cols ?to_idx "(\<lambda>col i. 0, \<lambda>col i. 0)" col i]
    unfolding acc_def all by simp_all
qed

lemma average_cell_mean:
  assumes "\<forall>(name, df) \<in> set ed. distinct (numeric_cols df) \<and> ''Date'' \<notin> set (numeric_cols df)"
    and "(\<Union>(name, df) \<in> set ed. set (numeric_cols df)) \<subseteq> set all_cols"
    and "i < length (all_dates ed)"
  shows "average_cell (fold (add_exchange all_cols (date_to_idx (all_dates ed))) ed (\<lambda>col i. 0, \<lambda>col i. 0)) col i
           = mean (observed_values ed col (all_dates ed ! i))"
  unfolding average_cell_def mean_def accumulated [OF assms] by simp

lemma average_exchanges_cols:
  assumes "ed \<noteq> []" and "is_set_order set_order"
    and "\<forall>(name, df) \<in> set ed. distinct (numeric_cols df) \<and> ''Date'' \<notin> set (numeric_cols df)"
  shows "average_exchanges set_order ed
           = Inr \<lparr>Date = all_dates ed,
                   avg_cols = map (\<lambda>col. (col, map (\<lambda>d. mean (observed_values ed col d)) (all_dates ed)))
                                (all_columns set_order ed)\<rparr>"
proof -
  let ?cols = "all_columns set_order ed"
  let ?acc = "fold (add_exchange ?cols (date_to_idx (all_dates ed))) ed (\<lambda>col i. 0, \<lambda>col i. 0)"
  have sup: "(\<Union>(name, df) \<in> set ed. set (numeric_cols df)) \<subseteq> set ?cols"
    using set_all_columns(1) [OF assms(2), of ed] by simp
  have "map (average_cell ?acc col) [0..<length (all_dates ed)]
          = map (\<lambda>d. mean (observed_values ed col d)) (all_dates ed)" for col
    by (rule nth_equalityI) (simp_all add: average_cell_mean [OF assms(3) sup])
  then show ?thesis
    using assms(1) by (simp add: average_exchanges_def Let_def)
qed

subsection \<open>The averaged table\<close>

lemma map_of_keyed:
  "k \<in> set ks \<Longrightarrow> map_of (map (\<lambda>k. (k, f k)) ks) k = Some (f k)"
  by (induction ks) auto

text \<open>
  Claim C1.  \<open>average_exchanges\<close> returns a table on the shared date axis whose columns
  are the numeric columns of the inputs; the cell of a metric on a date is the arithmetic
  mean of exactly the observed values of that metric on that date over all exchanges, and
  it is missing (\<open>None\<close>, not 0) when no exchange observed it.
\<close>

theorem merged_value_is_mean_of_observed:
  assumes "exchange_data \<noteq> []" and "is_set_order set_order"
    and "\<forall>(name, df) \<in> set exchange_data.
           distinct (numeric_cols df) \<and> ''Date'' \<notin> set (numeric_cols df)"
  shows "\<exists>r. average_exchanges set_order exchange_data = Inr r
           \<and> Date r = all_dates exchange_data
           \<and> set (map fst (avg_cols r)) = (\<Union>(name, df) \<in> set exchange_data. set (numeric_cols df))
           \<and> (\<forall>col \<in> set (map fst (avg_cols r)). \<forall>i < length (Date r).
                 \<exists>column. map_of (avg_cols r) col = Some column
                   \<and> length column = length (Date r)
                   \<and> column ! i =
                       (if observed_values exchange_data col (Date r ! i) = [] then None
                        else Some (sum_list (observed_values exchange_data col (Date r ! i))
                                   / real (length (observed_values exchange_data col (Date r ! i))))))"
proof -
  let ?cols = "all_columns set_order exchange_data"
  let ?r = "\<lparr>Date = all_dates exchange_data,
             avg_cols = map (\<lambda>col. (col, map (\<lambda>d. mean (observed_values exchange_data col d))
                                            (all_dates exchange_data))) ?cols\<rparr>"
  have r: "average_exchanges set_order exchange_data = Inr ?r"
    using assms by (rule average_exchanges_cols)
  have names: "map fst (avg_cols ?r) = ?cols"
    by (simp add: comp_def)
  have "map_of (avg_cols ?r) col
          = Some (map (\<lambda>d. mean (observed_values exchange_data col d)) (all_dates exchange_data))"
    if "col \<in> set ?cols" for col
    using that by (simp add: map_of_keyed)
  then have "\<forall>col \<in> set (map fst (avg_cols ?r)). \<forall>i < length (Date ?r).
                 \<exists>column. map_of (avg_cols ?r) col = Some column
                   \<and> length column = length (Date ?r)
                   \<and> column ! i =
                       (if observed_values exchange_data col (Date ?r ! i) = [] then None
                        else Some (sum_list (observed_values exchange_data col (Date ?r ! i))
                                   / real (length (observed_values exchange_data col (Date ?r ! i)))))"
    unfolding names by (simp add: mean_def)
  moreover have "set (map fst (avg_cols ?r)) = (\<Union>(name, df) \<in> set exchange_data. set (numeric_cols df))"
    unfolding names using set_all_columns(1) [OF assms(2)] .
  ultimately show ?thesis
    using r by (intro exI [of _ ?r] conjI) simp_all
qed

theorem merged_value_is_mean_of_observed_witness:
  "is_set_order id
   \<and> average_exchanges id
        [(''A'', \<lparr>numeric_cols = [''Close''],
               rows = [(1, (\<lambda>col. None)(''Close'' := Some 10)), (2, (\<lambda>col. None)(''Close'' := Some 20))]\<rparr>),
         (''B'', \<lparr>numeric_cols = [''Close''],
               rows = [(2, (\<lambda>col. None)(''Close'' := Some 40)), (3, (\<lambda>col. None)(''Close'' := Some 70))]\<rparr>)]
       = Inr \<lparr>Date = [1, 2, 3], avg_cols = [(''Close'', [Some 10, Some 30, Some 70])]\<rparr>
   \<and> observed_values
        [(''A'', \<lparr>numeric_cols = [''Close''],
               rows = [(1, (\<lambda>col. None)(''Close'' := Some 10)), (2, (\<lambda>col. None)(''Close'' := Some 20))]\<rparr>),
         (''B'', \<lparr>numeric_cols = [''Close''],
               rows = [(2, (\<lambda>col. None)(''Close'' := Some 40)), (3, (\<lambda>col. None)(''Close'' := Some 70))]\<rparr>)]
        ''Close'' 2 = [20, 40]"
proof -
  let ?ed = "[(''A'', \<lparr>numeric_cols = [''Close''],
               rows = [(1::int, (\<lambda>col. None)(''Close'' := Some (10::real))), (2, (\<lambda>col. None)(''Close'' := Some 20))]\<rparr>),
         (''B'', \<lparr>numeric_cols = [''Close''],
               rows = [(2, (\<lambda>col. None)(''Close'' := Some 40)), (3, (\<lambda>col. None)(''Close'' := Some 70))]\<rparr>)]"
  have h1: "?ed \<noteq> []" by simp
  have h2: "is_set_order id" by (simp add: is_set_order_def)
  have h3: "\<forall>(name, df) \<in> set ?ed. distinct (numeric_cols df) \<and> ''Date'' \<notin> set (numeric_cols df)"
    by simp
  from merged_value_is_mean_of_observed [OF h1 h2 h3]
  obtain r where r: "average_exchanges id ?ed = Inr r" "Date r = all_dates ?ed"
    and cells: "\<forall>col \<in> set (map fst (avg_cols r)). \<forall>i < length (Date r).
                 \<exists>column. map_of (avg_cols r) col = Some column
                   \<and> length column = length (Date r)
                   \<and> column ! i =
                       (if observed_values ?ed col (Date r ! i) = [] then None
                        else Some (sum_list (observed_values ?ed col (Date r ! i))
                                   / real (length (observed_values ?ed col (Date r ! i)))))"
    by blast
  have e: "average_exchanges id ?ed
       = Inr \<lparr>Date = [1, 2, 3], avg_cols = [(''Close'', [Some 10, Some 30, Some 70])]\<rparr>"
    by code_simp
  have o: "observed_values ?ed ''Close'' 2 = [20, 40]"
    by (simp add: observed_values_def)
  from h2 e o show ?thesis by blast
qed

lemma set_common_dates: "set (common_dates v c) = set v \<inter> set c"
  by (auto simp: common_dates_def unique_def)

lemma distinct_common_dates: "distinct (common_dates v c)"
  by (simp add: common_dates_def unique_def)

text \<open>
  Claim C3, as amended.  The date axis of the table that \<open>average_exchanges\<close> returns is
  exactly the ascending union of the dates of its inputs: sorted, without repetition,
  every input date on it and no other.  The axis of \<open>combine_volatility_currency\<close> is
  instead the set of dates that both of its inputs have.
\<close>

theorem date_axis:
  "(average_exchanges set_order exchange_data = Inr r \<longrightarrow>
      sorted (Date r) \<and> distinct (Date r)
      \<and> set (Date r) = (\<Union>(name, df) \<in> set exchange_data. fst ` set (rows df)))
   \<and> distinct (common_dates volatility_index currency_index)
   \<and> set (common_dates volatility_index currency_index) = set volatility_index \<inter> set currency_index"
proof -
  have "Date r = all_dates exchange_data" if "average_exchanges set_order exchange_data = Inr r"
    using that by (auto simp: average_exchanges_def Let_def split: if_splits)
  then show ?thesis
    using sorted_all_dates [of exchange_data] distinct_all_dates [of exchange_data]
      set_all_dates [of exchange_data] set_common_dates distinct_common_dates
    by auto
qed

theorem date_axis_witness:
  "average_exchanges id
        [(''A'', \<lparr>numeric_cols = [''Close''],
               rows = [(5, (\<lambda>col. None)(''Close'' := Some 10)), (2, (\<lambda>col. None)(''Close'' := Some 20))]\<rparr>),
         (''B'', \<lparr>numeric_cols = [''Close''],
               rows = [(2, (\<lambda>col. None)(''Close'' := Some 40)), (3, (\<lambda>col. None)(''Close'' := Some 70))]\<rparr>)]
       = Inr \<lparr>Date = [2, 3, 5], avg_cols = [(''Close'', [Some 30, Some 70, Some 10])]\<rparr>
   \<and> sorted [2, 3, 5 :: int] \<and> set [2, 3, 5 :: int] = {5, 2} \<union> {2, 3}"
proof -
  have e: "average_exchanges id
        [(''A'', \<lparr>numeric_cols = [''Close''],
               rows = [(5, (\<lambda>col. None)(''Close'' := Some 10)), (2, (\<lambda>col. None)(''Close'' := Some 20))]\<rparr>),
         (''B'', \<lparr>numeric_cols = [''Close''],
               rows = [(2, (\<lambda>col. None)(''Close'' := Some 40)), (3, (\<lambda>col. None)(''Close'' := Some 70))]\<rparr>)]
       = Inr \<lparr>Date = [2, 3, 5], avg_cols = [(''Close'', [Some 30, Some 70, Some 10])]\<rparr>"
    by code_simp
  from date_axis [of id _ _ "[]" "[]"] e show ?thesis
    by auto
qed

text \<open>
  Claim C3 as stated fails in \<open>combine_volatility_currency\<close>: with volatility observed on
  days 1 and 2 and currency on days 2 and 3, the axis is day 2 alone; day 1 is observed
  in an input and is not a row.
\<close>

theorem common_dates_counterexample:
  "common_dates [1, 2] [2, 3] = [2]
   \<and> 1 \<in> set [1, 2 :: int] \<and> 1 \<notin> set (common_dates [1, 2] [2, 3])"
  by (simp add: common_dates_def unique_def)

lemma map_of_keyed_fun:
  "map_of (map (\<lambda>k. (k, f k)) ks) = (\<lambda>k. if k \<in> set ks then Some (f k) else None)"
  by (induction ks) auto

text \<open>
  Claim C8, as amended.  Two runs of \<open>average_exchanges\<close> on the same input, whatever the
  iteration orders of the set of column names, return the same date axis, the same set
  of columns and the same cells in every column; the order of the columns is the one
  thing left open.  The content written to the latest file does not depend on the
  timestamp, which goes into the name of the other file only.
\<close>

theorem order_independent_cells:
  assumes "exchange_data \<noteq> []" and "is_set_order order1" and "is_set_order order2"
    and "\<forall>(name, df) \<in> set exchange_data.
           distinct (numeric_cols df) \<and> ''Date'' \<notin> set (numeric_cols df)"
  shows "\<exists>r1 r2. average_exchanges order1 exchange_data = Inr r1
           \<and> average_exchanges order2 exchange_data = Inr r2
           \<and> Date r1 = Date r2
           \<and> set (map fst (avg_cols r1)) = set (map fst (avg_cols r2))
           \<and> map_of (avg_cols r1) = map_of (avg_cols r2)
           \<and> save_averaged_data r1 timestamp1 fs ''averaged_exchanges.csv''
               = save_averaged_data r1 timestamp2 fs ''averaged_exchanges.csv''"
proof -
  let ?f = "\<lambda>col. map (\<lambda>d. mean (observed_values exchange_data col d)) (all_dates exchange_data)"
  let ?r = "\<lambda>order. \<lparr>Date = all_dates exchange_data,
                      avg_cols = map (\<lambda>col. (col, ?f col)) (all_columns order exchange_data)\<rparr>"
  have r1: "average_exchanges order1 exchange_data = Inr (?r order1)"
    using assms(1,2,4) by (rule average_exchanges_cols)
  have r2: "average_exchanges order2 exchange_data = Inr (?r order2)"
    using assms(1,3,4) by (rule average_exchanges_cols)
  have s: "set (all_columns order1 exchange_data) = set (all_columns order2 exchange_data)"
    using set_all_columns(1) [OF assms(2)] set_all_columns(1) [OF assms(3)] by simp
  have "map_of (avg_cols (?r order1)) = map_of (avg_cols (?r order2))"
    by (simp add: map_of_keyed_fun s)
  moreover have "set (map fst (avg_cols (?r order1))) = set (map fst (avg_cols (?r order2)))"
    using s by (simp add: comp_def)
  moreover have "save_averaged_data (?r order1) timestamp1 fs ''averaged_exchanges.csv''
               = save_averaged_data (?r order1) timestamp2 fs ''averaged_exchanges.csv''"
    by (simp add: save_averaged_data_def)
  ultimately show ?thesis
    using r1 r2 by (intro exI [of _ "?r order1"] exI [of _ "?r order2"] conjI) simp_all
qed

theorem order_independent_cells_witness:
  "is_set_order id \<and> is_set_order rev
   \<and> (\<exists>r1 r2. average_exchanges id
        [(''GDAXI'', \<lparr>numeric_cols = [''Open'', ''Close''],
            rows = [(1, ((\<lambda>col. None)(''Open'' := Some 10))(''Close'' := Some 20))]\<rparr>)] = Inr r1
      \<and> average_exchanges rev
        [(''GDAXI'', \<lparr>numeric_cols = [''Open'', ''Close''],
            rows = [(1, ((\<lambda>col. None)(''Open'' := Some 10))(''Close'' := Some 20))]\<rparr>)] = Inr r2
      \<and> Date r1 = Date r2
      \<and> map_of (avg_cols r1) ''Open'' = map_of (avg_cols r2) ''Open'')"
proof -
  let ?ed = "[(''GDAXI'', \<lparr>numeric_cols = [''Open'', ''Close''],
            rows = [(1::int, ((\<lambda>col. None)(''Open'' := Some (10::real)))(''Close'' := Some 20))]\<rparr>)]"
  have h1: "?ed \<noteq> []" by simp
  have h2: "is_set_order id" and h3: "is_set_order rev"
    by (simp_all add: is_set_order_def)
  have h4: "\<forall>(name, df) \<in> set ?ed. distinct (numeric_cols df) \<and> ''Date'' \<notin> set (numeric_cols df)"
    by simp
  from order_independent_cells [OF h1 h2 h3 h4]
  obtain r1 r2 where "average_exchanges id ?ed = Inr r1" "average_exchanges rev ?ed = Inr r2"
    "Date r1 = Date r2" "map_of (avg_cols r1) = map_of (avg_cols r2)"
    by blast
  then have "average_exchanges id ?ed = Inr r1 \<and> average_exchanges rev ?ed = Inr r2
      \<and> Date r1 = Date r2 \<and> map_of (avg_cols r1) ''Open'' = map_of (avg_cols r2) ''Open''"
    by simp
  with h2 h3 show ?thesis by blast
qed

text \<open>
  Claim C8 as stated fails on the order of the columns: the columns of the result are
  created while iterating over a Python set of strings (lines 87--94), so two runs on
  the same input that iterate it in different orders write the columns in different
  orders.
\<close>

theorem column_order_counterexample:
  "is_set_order id \<and> is_set_order rev
   \<and> average_exchanges id
        [(''GDAXI'', \<lparr>numeric_cols = [''Open'', ''Close''],
            rows = [(1, ((\<lambda>col. None)(''Open'' := Some 10))(''Close'' := Some 20))]\<rparr>)]
       = Inr \<lparr>Date = [1], avg_cols = [(''Open'', [Some 10]), (''Close'', [Some 20])]\<rparr>
   \<and> average_exchanges rev
        [(''GDAXI'', \<lparr>numeric_cols = [''Open'', ''Close''],
            rows = [(1, ((\<lambda>col. None)(''Open'' := Some 10))(''Close'' := Some 20))]\<rparr>)]
       = Inr \<lparr>Date = [1], avg_cols = [(''Close'', [Some 20]), (''Open'', [Some 10])]\<rparr>"
proof -
  have "is_set_order id" "is_set_order rev"
    by (simp_all add: is_set_order_def)
  moreover have "average_exchanges id
        [(''GDAXI'', \<lparr>numeric_cols = [''Open'', ''Close''],
            rows = [(1, ((\<lambda>col. None)(''Open'' := Some 10))(''Close'' := Some 20))]\<rparr>)]
       = Inr \<lparr>Date = [1], avg_cols = [(''Open'', [Some 10]), (''Close'', [Some 20])]\<rparr>"
    by code_simp
  moreover have "average_exchanges rev
        [(''GDAXI'', \<lparr>numeric_cols = [''Open'', ''Close''],
            rows = [(1, ((\<lambda>col. None)(''Open'' := Some 10))(''Close'' := Some 20))]\<rparr>)]
       = Inr \<lparr>Date = [1], avg_cols = [(''Close'', [Some 20]), (''Open'', [Some 10])]\<rparr>"
    by code_simp
  ultimately show ?thesis by blast
qed

section \<open>Properties of the duplicate handling\<close>

lemma set_valid: "set (valid xs) = {v. Some v \<in> set xs}"
  by (induction xs rule: valid.induct) auto

lemma duplicate_dates_zero: "duplicate_dates rws = 0 \<longleftrightarrow> distinct (map fst rws)"
proof -
  have "length (remdups (map fst rws)) \<le> length (map fst rws)"
    by (rule length_remdups_leq)
  then have "duplicate_dates rws = 0 \<longleftrightarrow> length (remdups (map fst rws)) = length (map fst rws)"
    by (auto simp: duplicate_dates_def)
  then show ?thesis
    by (metis length_remdups_eq remdups_id_iff_distinct)
qed

lemma filter_same_key:
  "distinct (map fst rs) \<Longrightarrow> r \<in> set rs \<Longrightarrow> filter (\<lambda>x. fst x = fst r) rs = [r]"
proof (induction rs)
  case Nil
  then show ?case by simp
next
  case (Cons a rs)
  show ?case
  proof (cases "a = r")
    case True
    with Cons.prems have "fst r \<notin> fst ` set rs" by simp
    then have "\<forall>x \<in> set rs. fst x \<noteq> fst r" by (metis imageI)
    then have "filter (\<lambda>x. fst x = fst r) rs = []" by (simp add: filter_empty_conv)
    with True show ?thesis by simp
  next
    case False
    with Cons.prems have "r \<in> set rs" "fst a \<noteq> fst r" by auto
    with Cons show ?thesis by simp
  qed
qed

lemma mean_skipna_single: "mean_skipna [x] = x"
  by (cases x) (simp_all add: mean_skipna_def)

lemma map_fst_groupby: "map fst (groupby_date_mean rws) = map Some (sort (remdups (valid (map fst rws))))"
  by (simp add: groupby_date_mean_def comp_def)

lemma resolve_distinct: "distinct (map fst (resolve_duplicate_dates rws))"
proof (cases "duplicate_dates rws > 0")
  case True
  have "distinct (map fst (groupby_date_mean rws))"
    unfolding map_fst_groupby by (simp add: distinct_map)
  then show ?thesis
    using True by (simp add: resolve_duplicate_dates_def distinct_map_filter)
next
  case False
  then have "distinct (map fst rws)" by (simp add: duplicate_dates_zero)
  then show ?thesis
    using False by (simp add: resolve_duplicate_dates_def distinct_map_filter)
qed

lemma resolve_dates: "fst ` set (resolve_duplicate_dates rws) = fst ` set rws - {None}"
proof (cases "duplicate_dates rws > 0")
  case True
  have "fst ` set (groupby_date_mean rws) = Some ` {d. Some d \<in> fst ` set rws}"
    using map_fst_groupby [of rws, THEN arg_cong, of set] by (simp add: set_valid)
  moreover have "fst ` {r \<in> set rs. fst r \<noteq> None} = fst ` set rs - {None}" for rs :: "raw_row list"
    by auto
  moreover have "Some ` {d. Some d \<in> A} = A - {None}" for A :: "date option set"
    by (auto simp: image_iff) (metis not_None_eq)
  ultimately show ?thesis
    using True by (simp add: resolve_duplicate_dates_def)
next
  case False
  then show ?thesis
    by (auto simp: resolve_duplicate_dates_def)
qed

lemma resolve_cells:
  assumes "r \<in> set (resolve_duplicate_dates rws)"
  shows "snd r col = mean_skipna (map (\<lambda>x. snd x col) (filter (\<lambda>x. fst x = fst r) rws))"
proof (cases "duplicate_dates rws > 0")
  case True
  with assms have "r \<in> set (groupby_date_mean rws)"
    by (simp add: resolve_duplicate_dates_def)
  then show ?thesis
    by (auto simp: groupby_date_mean_def)
next
  case False
  then have d: "distinct (map fst rws)" by (simp add: duplicate_dates_zero)
  from False assms have "r \<in> set rws" by (simp add: resolve_duplicate_dates_def)
  from filter_same_key [OF d this] show ?thesis
    by (simp add: mean_skipna_single)
qed

lemma drop_duplicated_common_dates:
  "drop_duplicated (map (\<lambda>d. (d, row d)) (common_dates volatility_index currency_index))
     = map (\<lambda>d. (d, row d)) (common_dates volatility_index currency_index)"
proof -
  have "map fst (map (\<lambda>d. (d, row d)) (common_dates volatility_index currency_index))
          = common_dates volatility_index currency_index"
    by (simp add: comp_def)
  then show ?thesis
    using distinct_common_dates [of volatility_index currency_index]
    by (simp add: drop_duplicated_def del: map_map)
qed

text \<open>
  Claim C2.  In \<open>load_exchange_data\<close> the rows that come out of the duplicate handling
  have pairwise different dates, exactly the dates of the input that are not NaT, and
  every cell is the arithmetic mean of the observed values that the input rows of that
  date have in that column (missing when they have none): 10 and 20 on one date become
  15.  The duplicate removal at the end of \<open>combine_volatility_currency\<close> finds nothing to
  remove: the table it is applied to is built on the common dates, each of them once.
\<close>

theorem duplicates_resolved:
  "distinct (map fst (resolve_duplicate_dates rws))
   \<and> fst ` set (resolve_duplicate_dates rws) = fst ` set rws - {None}
   \<and> (\<forall>r \<in> set (resolve_duplicate_dates rws). \<forall>col.
         snd r col = (let vs = valid (map (\<lambda>x. snd x col) (filter (\<lambda>x. fst x = fst r) rws))
                      in if vs = [] then None else Some (sum_list vs / real (length vs))))
   \<and> drop_duplicated (map (\<lambda>d. (d, row d)) (common_dates volatility_index currency_index))
       = map (\<lambda>d. (d, row d)) (common_dates volatility_index currency_index)"
  using resolve_distinct [of rws] resolve_dates [of rws] resolve_cells [of _ rws]
    drop_duplicated_common_dates [of row volatility_index currency_index]
  unfolding mean_skipna_def by blast

theorem duplicates_resolved_witness:
  "map (\<lambda>r. (fst r, snd r ''Close''))
       (resolve_duplicate_dates [(Some 7, (\<lambda>col. None)(''Close'' := Some 10)),
                                 (Some 7, (\<lambda>col. None)(''Close'' := Some 20))])
     = [(Some 7, Some 15)]
   \<and> valid (map (\<lambda>x. snd x ''Close'')
         (filter (\<lambda>x. fst x = Some 7) [(Some (7::int), (\<lambda>col. None)(''Close'' := Some (10::real))),
                                        (Some 7, (\<lambda>col. None)(''Close'' := Some 20))]))
     = [10, 20]
   \<and> drop_duplicated (map (\<lambda>d. (d, d + 4)) (common_dates [1, 2, 2] [2, 2, 1])) = [(1, 5), (2, 6)]"
proof -
  have "map (\<lambda>r. (fst r, snd r ''Close''))
       (resolve_duplicate_dates [(Some 7, (\<lambda>col. None)(''Close'' := Some 10)),
                                 (Some 7, (\<lambda>col. None)(''Close'' := Some 20))])
     = [(Some 7, Some 15)]"
    by code_simp
  moreover have "map (\<lambda>d. (d, d + 4)) (common_dates [1, 2, 2] [2, 2, 1]) = [(1, 5), (2, 6)]"
    by (simp add: common_dates_def unique_def)
  ultimately show ?thesis
    using duplicates_resolved [of "[(Some 7, (\<lambda>col. None)(''Close'' := Some 10)),
                                 (Some 7, (\<lambda>col. None)(''Close'' := Some 20))]"
                                "\<lambda>d. d + 4" "[1, 2, 2]" "[2, 2, 1]"]
    by simp
qed


section \<open>Properties of the writing of the combined dataset\<close>

lemma rename_loop_success:
  assumes "k \<le> j" "j < max_attempts" "rename_ok env j" "fs temp_file = Some c"
  shows "fst (rename_loop env k fs) static_path = Some c \<and> snd (rename_loop env k fs)"
  using assms
proof (induction env k fs rule: rename_loop.induct)
  case (1 env current_attempt fs)
  let ?fs1 = "if fs static_path \<noteq> None \<and> remove_ok env current_attempt
              then fs(static_path := None) else fs"
  have t: "?fs1 temp_file = Some c"
    using "1.prems"(4) by (simp add: static_path_def temp_file_def)
  have lt: "current_attempt < max_attempts" using "1.prems" by simp
  show ?case
  proof (cases "rename_ok env current_attempt")
    case True
    with t lt show ?thesis
      by (simp add: rename_loop.simps [of env current_attempt fs] Let_def static_path_def temp_file_def)
  next
    case False
    with "1.prems" have "Suc current_attempt \<le> j"
      by (cases "current_attempt = j") auto
    from "1.IH" [OF lt refl _ this "1.prems"(2,3) t] False t
    have "fst (rename_loop env (Suc current_attempt) ?fs1) static_path = Some c
          \<and> snd (rename_loop env (Suc current_attempt) ?fs1)"
      by simp
    with False lt show ?thesis
      by (simp add: rename_loop.simps [of env current_attempt fs] Let_def)
  qed
qed

lemma rename_loop_failure:
  assumes "\<forall>j. k \<le> j \<and> j < max_attempts \<longrightarrow> \<not> rename_ok env j"
  shows "\<not> snd (rename_loop env k fs)
         \<and> (\<forall>p. p \<noteq> static_path \<longrightarrow> fst (rename_loop env k fs) p = fs p)
         \<and> (fst (rename_loop env k fs) static_path = fs static_path
              \<or> fst (rename_loop env k fs) static_path = None)
         \<and> ((\<forall>j. k \<le> j \<and> j < max_attempts \<longrightarrow> \<not> remove_ok env j)
              \<longrightarrow> fst (rename_loop env k fs) = fs)"
  using assms
proof (induction env k fs rule: rename_loop.induct)
  case (1 env current_attempt fs)
  let ?fs1 = "if fs static_path \<noteq> None \<and> remove_ok env current_attempt
              then fs(static_path := None) else fs"
  show ?case
  proof (cases "current_attempt < max_attempts")
    case False
    then show ?thesis
      by (simp add: rename_loop.simps [of env current_attempt fs])
  next
    case True
    with "1.prems" have no: "\<not> rename_ok env current_attempt" by simp
    have rest: "\<forall>j. Suc current_attempt \<le> j \<and> j < max_attempts \<longrightarrow> \<not> rename_ok env j"
      using "1.prems" by simp
    have step: "rename_loop env current_attempt fs = rename_loop env (Suc current_attempt) ?fs1"
      using True no by (simp add: rename_loop.simps [of env current_attempt fs] Let_def)
    from "1.IH" [OF True refl _ rest] no
    have ih: "\<not> snd (rename_loop env (Suc current_attempt) ?fs1)"
      "\<forall>p. p \<noteq> static_path \<longrightarrow> fst (rename_loop env (Suc current_attempt) ?fs1) p = ?fs1 p"
      "fst (rename_loop env (Suc current_attempt) ?fs1) static_path = ?fs1 static_path
         \<or> fst (rename_loop env (Suc current_attempt) ?fs1) static_path = None"
      "(\<forall>j. Suc current_attempt \<le> j \<and> j < max_attempts \<longrightarrow> \<not> remove_ok env j)
         \<longrightarrow> fst (rename_loop env (Suc current_attempt) ?fs1) = ?fs1"
      by simp_all
    have a: "\<not> snd (rename_loop env current_attempt fs)"
      using ih(1) step by simp
    have b: "\<forall>p. p \<noteq> static_path \<longrightarrow> fst (rename_loop env current_attempt fs) p = fs p"
      using ih(2) step by simp
    have c: "fst (rename_loop env current_attempt fs) static_path = fs static_path
              \<or> fst (rename_loop env current_attempt fs) static_path = None"
      using ih(3) step by (auto split: if_splits)
    have d: "fst (rename_loop env current_attempt fs) = fs"
      if "\<forall>j. current_attempt \<le> j \<and> j < max_attempts \<longrightarrow> \<not> remove_ok env j"
    proof -
      from that True have "\<not> remove_ok env current_attempt" by simp
      moreover from that have "\<forall>j. Suc current_attempt \<le> j \<and> j < max_attempts \<longrightarrow> \<not> remove_ok env j"
        by simp
      ultimately show ?thesis using ih(4) step by simp
    qed
    from a b c d show ?thesis by blast
  qed
qed


lemma rename_loop_frame:
  "p \<noteq> static_path \<Longrightarrow> p \<noteq> temp_file \<Longrightarrow> fst (rename_loop env k fs) p = fs p"
proof (induction env k fs rule: rename_loop.induct)
  case (1 env current_attempt fs)
  let ?fs1 = "if fs static_path \<noteq> None \<and> remove_ok env current_attempt
              then fs(static_path := None) else fs"
  show ?case
  proof (cases "current_attempt < max_attempts")
    case False
    then show ?thesis by (simp add: rename_loop.simps [of env current_attempt fs])
  next
    case True
    show ?thesis
    proof (cases "rename_ok env current_attempt \<and> ?fs1 temp_file \<noteq> None")
      case yes: True
      with True "1.prems" show ?thesis
        by (simp add: rename_loop.simps [of env current_attempt fs] Let_def)
    next
      case no: False
      have step: "rename_loop env current_attempt fs = rename_loop env (Suc current_attempt) ?fs1"
        by (subst rename_loop.simps) (simp only: True no if_True if_False Let_def)
      from "1.IH" [OF True refl no "1.prems"] "1.prems"
      have "fst (rename_loop env (Suc current_attempt) ?fs1) p = fs p" by simp
      with step show ?thesis by simp
    qed
  qed
qed

lemma rename_loop_bounded:
  assumes "\<forall>j < max_attempts. remove_ok env j = remove_ok env' j \<and> rename_ok env j = rename_ok env' j"
  shows "rename_loop env k fs = rename_loop env' k fs"
  using assms
proof (induction env k fs rule: rename_loop.induct)
  case (1 env current_attempt fs)
  let ?fs1 = "if fs static_path \<noteq> None \<and> remove_ok env current_attempt
              then fs(static_path := None) else fs"
  show ?case
  proof (cases "current_attempt < max_attempts")
    case False
    then show ?thesis
      by (simp add: rename_loop.simps [of env current_attempt fs]
                    rename_loop.simps [of env' current_attempt fs])
  next
    case True
    with "1.prems" have same: "remove_ok env current_attempt = remove_ok env' current_attempt"
      "rename_ok env current_attempt = rename_ok env' current_attempt" by simp_all
    show ?thesis
    proof (cases "rename_ok env current_attempt \<and> ?fs1 temp_file \<noteq> None")
      case yes: True
      with True same show ?thesis
        by (simp add: rename_loop.simps [of env current_attempt fs]
                      rename_loop.simps [of env' current_attempt fs] Let_def)
    next
      case no: False
      have step: "rename_loop env current_attempt fs = rename_loop env (Suc current_attempt) ?fs1"
        by (subst rename_loop.simps) (simp only: True no if_True if_False Let_def)
      from no same
      have no': "\<not> (rename_ok env' current_attempt
                    \<and> (if fs static_path \<noteq> None \<and> remove_ok env' current_attempt
                        then fs(static_path := None) else fs) temp_file \<noteq> None)"
        by simp
      have step': "rename_loop env' current_attempt fs
                     = rename_loop env' (Suc current_attempt)
                         (if fs static_path \<noteq> None \<and> remove_ok env' current_attempt
                          then fs(static_path := None) else fs)"
        by (subst rename_loop.simps) (simp only: True no' if_True if_False Let_def)
      from "1.IH" [OF True refl no "1.prems"]
      have "rename_loop env (Suc current_attempt) ?fs1 = rename_loop env' (Suc current_attempt) ?fs1" .
      with step step' same show ?thesis by simp
    qed
  qed
qed

text \<open>
  Claim C7, as amended.  When the timestamped file and the temporary file can be written,
  \<open>create_combined_dataset\<close> has written the table to the timestamped file, and then
  tries at most five times to remove the latest file and rename the temporary file onto
  it (outcomes after the fifth attempt play no part).  If a rename succeeds, the latest
  file holds the new table.  If none succeeds, the latest file is either unchanged or
  gone (when a removal succeeded), the temporary file still holds the new table, and the
  backup holds the prior latest content when the copy succeeded; the prior latest file is
  sure to be unchanged only when no removal succeeded either.
\<close>

theorem latest_file_update:
  assumes "snapshot_ok env" and "temp_ok env"
    and "output_path timestamp \<notin> {static_path, backup_file, temp_file}"
  shows "\<exists>fs'. save_outputs env timestamp final_df fs = Inr fs'
           \<and> fs' (output_path timestamp) = Some final_df
           \<and> ((\<exists>j < max_attempts. rename_ok env j) \<longrightarrow> fs' static_path = Some final_df)
           \<and> ((\<forall>j < max_attempts. \<not> rename_ok env j) \<longrightarrow>
                 (fs' static_path = fs static_path \<or> fs' static_path = None)
                 \<and> fs' temp_file = Some final_df
                 \<and> (fs static_path \<noteq> None \<and> backup_ok env \<longrightarrow> fs' backup_file = fs static_path))
           \<and> ((\<forall>j < max_attempts. \<not> rename_ok env j \<and> \<not> remove_ok env j) \<longrightarrow>
                 fs' static_path = fs static_path)
           \<and> (snapshot_ok env' \<and> temp_ok env' \<and> backup_ok env' = backup_ok env
                \<and> (\<forall>j < 5. remove_ok env' j = remove_ok env j \<and> rename_ok env' j = rename_ok env j)
                \<longrightarrow> save_outputs env' timestamp final_df fs = Inr fs')"
proof -
  define fs2 where "fs2 =
     (let fs1 = (fs(output_path timestamp \<mapsto> final_df))(temp_file \<mapsto> final_df)
      in if fs1 static_path \<noteq> None \<and> backup_ok env
         then fs1(backup_file := fs1 static_path) else fs1)"
  define fs' where "fs' = fst (rename_loop env 0 fs2)"
  have ne: "output_path timestamp \<noteq> static_path" "output_path timestamp \<noteq> backup_file"
    "output_path timestamp \<noteq> temp_file"
    using assms(3) by simp_all
  have names: "static_path \<noteq> temp_file" "static_path \<noteq> backup_file" "backup_file \<noteq> temp_file"
    by (simp_all add: static_path_def temp_file_def backup_file_def)
  have run: "save_outputs env timestamp final_df fs = Inr fs'"
    using assms(1,2) by (simp add: save_outputs_def save_latest_def Let_def fs'_def fs2_def)
  have st: "fs2 static_path = fs static_path"
    using ne names by (simp add: fs2_def Let_def)
  have tmp: "fs2 temp_file = Some final_df"
    using names by (simp add: fs2_def Let_def)
  have snap: "fs2 (output_path timestamp) = Some final_df"
    using ne by (simp add: fs2_def Let_def)
  have bk: "fs2 backup_file = fs static_path" if "fs static_path \<noteq> None" "backup_ok env"
    using that ne names by (simp add: fs2_def Let_def)
  have out: "fs' (output_path timestamp) = Some final_df"
    unfolding fs'_def using rename_loop_frame [OF ne(1) ne(3), of env 0 fs2] snap by simp
  have ok: "fs' static_path = Some final_df" if "\<exists>j < max_attempts. rename_ok env j"
  proof -
    from that obtain j where j: "j < max_attempts" "rename_ok env j" by auto
    have "0 \<le> j" by simp
    with j tmp have "fst (rename_loop env 0 fs2) static_path = Some final_df"
      using rename_loop_success [of 0 j env fs2 final_df] by simp
    then show ?thesis by (simp add: fs'_def)
  qed
  have fail: "(fs' static_path = fs static_path \<or> fs' static_path = None)
                 \<and> fs' temp_file = Some final_df
                 \<and> (fs static_path \<noteq> None \<and> backup_ok env \<longrightarrow> fs' backup_file = fs static_path)"
    if "\<forall>j < max_attempts. \<not> rename_ok env j"
  proof -
    from that have "\<forall>j. 0 \<le> j \<and> j < max_attempts \<longrightarrow> \<not> rename_ok env j" by simp
    from rename_loop_failure [OF this, of fs2]
    have f1: "\<forall>p. p \<noteq> static_path \<longrightarrow> fs' p = fs2 p"
      and f2: "fs' static_path = fs2 static_path \<or> fs' static_path = None"
      unfolding fs'_def by simp_all
    from f1 names have "fs' temp_file = fs2 temp_file" "fs' backup_file = fs2 backup_file"
      by simp_all
    with f2 st tmp bk show ?thesis by simp
  qed
  have keep: "fs' static_path = fs static_path"
    if "\<forall>j < max_attempts. \<not> rename_ok env j \<and> \<not> remove_ok env j"
  proof -
    from that have a: "\<forall>j. 0 \<le> j \<and> j < max_attempts \<longrightarrow> \<not> rename_ok env j"
      and b: "\<forall>j. 0 \<le> j \<and> j < max_attempts \<longrightarrow> \<not> remove_ok env j" by simp_all
    from rename_loop_failure [OF a, of fs2] b
    have "fs' = fs2" unfolding fs'_def by simp
    with st show ?thesis by simp
  qed
  have bounded: "save_outputs env' timestamp final_df fs = Inr fs'"
    if "snapshot_ok env' \<and> temp_ok env' \<and> backup_ok env' = backup_ok env
                \<and> (\<forall>j < 5. remove_ok env' j = remove_ok env j \<and> rename_ok env' j = rename_ok env j)"
  proof -
    from that have "\<forall>j < max_attempts. remove_ok env' j = remove_ok env j \<and> rename_ok env' j = rename_ok env j"
      by (simp add: max_attempts_def)
    from rename_loop_bounded [OF this, of 0 fs2] that show ?thesis
      by (simp add: save_outputs_def save_latest_def Let_def fs'_def fs2_def)
  qed
  show ?thesis
  proof (intro exI [of _ fs'] conjI impI)
    show "save_outputs env timestamp final_df fs = Inr fs'" by (rule run)
    show "fs' (output_path timestamp) = Some final_df" by (rule out)
    show "fs' static_path = Some final_df" if "\<exists>j < max_attempts. rename_ok env j"
      using that by (rule ok)
    show "fs' static_path = fs static_path \<or> fs' static_path = None"
      if "\<forall>j < max_attempts. \<not> rename_ok env j"
      using fail [OF that] by simp
    show "fs' temp_file = Some final_df" if "\<forall>j < max_attempts. \<not> rename_ok env j"
      using fail [OF that] by simp
    show "fs' backup_file = fs static_path"
      if "\<forall>j < max_attempts. \<not> rename_ok env j" "fs static_path \<noteq> None \<and> backup_ok env"
      using fail [OF that(1)] that(2) by simp
    show "fs' static_path = fs static_path"
      if "\<forall>j < max_attempts. \<not> rename_ok env j \<and> \<not> remove_ok env j"
      using that by (rule keep)
    show "save_outputs env' timestamp final_df fs = Inr fs'"
      if "snapshot_ok env' \<and> temp_ok env' \<and> backup_ok env' = backup_ok env
                \<and> (\<forall>j < 5. remove_ok env' j = remove_ok env j \<and> rename_ok env' j = rename_ok env j)"
      using that by (rule bounded)
  qed
qed

theorem latest_file_update_witness:
  "snapshot_ok \<lparr>snapshot_ok = True, temp_ok = True, backup_ok = True,
                 remove_ok = (\<lambda>j. False), rename_ok = (\<lambda>j. j = 2)\<rparr>
   \<and> temp_ok \<lparr>snapshot_ok = True, temp_ok = True, backup_ok = True,
                 remove_ok = (\<lambda>j. False), rename_ok = (\<lambda>j. j = 2)\<rparr>
   \<and> output_path ''20250301_120000'' \<notin> {static_path, backup_file, temp_file}
   \<and> (\<exists>fs'. save_outputs \<lparr>snapshot_ok = True, temp_ok = True, backup_ok = True,
                              remove_ok = (\<lambda>j. False), rename_ok = (\<lambda>j. j = 2)\<rparr>
               ''20250301_120000'' ''new table'' (Map.empty(static_path \<mapsto> ''old table'')) = Inr fs'
           \<and> fs' (output_path ''20250301_120000'') = Some ''new table''
           \<and> fs' static_path = Some ''new table'')"
proof -
  let ?env = "\<lparr>snapshot_ok = True, temp_ok = True, backup_ok = True,
               remove_ok = (\<lambda>j. False), rename_ok = (\<lambda>j::nat. j = 2)\<rparr>"
  have h1: "snapshot_ok ?env" and h2: "temp_ok ?env" by simp_all
  have h3: "output_path ''20250301_120000'' \<notin> {static_path, backup_file, temp_file}"
    by (simp add: output_path_def static_path_def backup_file_def temp_file_def)
  have "2 < max_attempts \<and> rename_ok ?env 2" by (simp add: max_attempts_def)
  then have ex: "\<exists>j < max_attempts. rename_ok ?env j" by blast
  from latest_file_update [OF h1 h2 h3, of "''new table''" "Map.empty(static_path \<mapsto> ''old table'')"] ex
  have "\<exists>fs'. save_outputs ?env ''20250301_120000'' ''new table''
                 (Map.empty(static_path \<mapsto> ''old table'')) = Inr fs'
           \<and> fs' (output_path ''20250301_120000'') = Some ''new table''
           \<and> fs' static_path = Some ''new table''"
    by blast
  with h1 h2 h3 show ?thesis by blast
qed

text \<open>
  Claim C7 as stated fails when the swap never succeeds but a removal does: the loop
  removes the latest file before each rename, so after five failed renames the prior
  latest file is gone (its content survives in the backup copy only), and the new table
  is in the timestamped file and the temporary file.
\<close>

theorem latest_file_lost_counterexample:
  "map_sum id (\<lambda>fs'. (fs' static_path, fs' backup_file, fs' temp_file, fs' (output_path ''20250301_120000'')))
     (save_outputs \<lparr>snapshot_ok = True, temp_ok = True, backup_ok = True,
                     remove_ok = (\<lambda>j. True), rename_ok = (\<lambda>j. False)\<rparr>
        ''20250301_120000'' ''new table'' (Map.empty(static_path \<mapsto> ''old table'')))
   = Inr (None, Some ''old table'', Some ''new table'', Some ''new table'')"
  by code_simp

section \<open>Properties of metrics without observations\<close>

lemma ffill_all_missing: "\<forall>x \<in> set xs. x = None \<Longrightarrow> ffill xs = xs"
proof -
  have "\<forall>x \<in> set xs. x = None \<Longrightarrow> ffill_from None xs = xs"
    by (induction xs) auto
  then show "\<forall>x \<in> set xs. x = None \<Longrightarrow> ffill xs = xs"
    by (simp add: ffill_def)
qed

lemma bfill_all_missing: "\<forall>x \<in> set xs. x = None \<Longrightarrow> bfill xs = xs"
  using ffill_all_missing [of "rev xs"] by (simp add: bfill_def)

lemma sort_positions_bound: "i \<in> set (sort_positions ds) \<Longrightarrow> i < length ds"
  by (auto simp: sort_positions_def)

lemma take_rows_all_missing:
  assumes "\<forall>x \<in> set xs. x = None" and "\<forall>i \<in> set perm. i < length xs"
  shows "\<forall>x \<in> set (take_rows perm xs). x = None"
  using assms by (auto simp: take_rows_def)

lemma columns_sort_index: "columns (sort_index df) = columns df"
  by (cases "index df") (auto simp: sort_index_def columns_def Let_def)

lemma columns_fill_missing: "columns (fill_missing df) = columns df"
  by (auto simp: fill_missing_def columns_def)

lemma columns_final_table:
  "columns (final_table df) = filter (\<lambda>name. \<not> contains name ''Currency'') (columns df)"
proof -
  have "columns (remove_currency_columns d) = filter (\<lambda>name. \<not> contains name ''Currency'') (columns d)" for d
    unfolding columns_def remove_currency_columns_cols
    by (induction "cols d") (auto simp: filter_map comp_def case_prod_unfold)
  then show ?thesis
    by (simp add: final_table_def columns_sort_index columns_fill_missing)
qed


lemma cols_final_table:
  "cols (final_table df)
     = filter (\<lambda>(name, c). \<not> contains name ''Currency'')
         (map (\<lambda>(name, c). (name, map_column bfill bfill (map_column ffill ffill
                  (case index df of None \<Rightarrow> c | Some ds \<Rightarrow> take_rows_column (sort_positions ds) c))))
              (cols df))"
proof (cases "index df")
  case None
  then show ?thesis
    by (simp add: final_table_def remove_currency_columns_cols fill_missing_def sort_index_def)
next
  case (Some ds)
  then show ?thesis
    by (simp add: final_table_def remove_currency_columns_cols fill_missing_def sort_index_def
                  Let_def case_prod_unfold comp_def)
qed

lemma fill_all_missing:
  "col_isna_all c \<Longrightarrow> map_column bfill bfill (map_column ffill ffill c) = c"
  by (cases c) (simp_all add: ffill_all_missing bfill_all_missing)

lemma take_rows_column_all_missing:
  assumes "col_isna_all c" and "col_length c = length ds"
  shows "col_isna_all (take_rows_column (sort_positions ds) c)
         \<and> col_length (take_rows_column (sort_positions ds) c) = length ds"
proof -
  have "length (filter (\<lambda>i. ds ! i \<noteq> None) [0..<length ds])
          + length (filter (\<lambda>i. \<not> ds ! i \<noteq> None) [0..<length ds]) = length [0..<length ds]"
    by (rule sum_length_filter_compl)
  then have len: "length (sort_positions ds) = length ds"
    by (simp add: sort_positions_def)
  have b: "\<forall>i \<in> set (sort_positions ds). i < length ds"
    using sort_positions_bound by blast
  show ?thesis
  proof (cases c)
    case (Num xs)
    with assms b show ?thesis
      using take_rows_all_missing [of xs "sort_positions ds"] len
      by (simp add: take_rows_def)
  next
    case (Obj ss)
    with assms b show ?thesis
      using take_rows_all_missing [of ss "sort_positions ds"] len
      by (simp add: take_rows_def)
  qed
qed

lemma all_missing_kept:
  assumes "(name, c) \<in> set (cols df)" and "col_isna_all c" and "col_length c = nrows df"
    and "\<not> contains name ''Currency''"
  shows "\<exists>c'. (name, c') \<in> set (cols (final_table df)) \<and> col_isna_all c'
               \<and> col_length c' = col_length c"
proof -
  let ?s = "case index df of None \<Rightarrow> c | Some ds \<Rightarrow> take_rows_column (sort_positions ds) c"
  have s: "col_isna_all ?s \<and> col_length ?s = col_length c"
  proof (cases "index df")
    case None
    with assms(2) show ?thesis by simp
  next
    case (Some ds)
    with assms(3) have "col_length c = length ds" by (simp add: nrows_def)
    from take_rows_column_all_missing [OF assms(2) this] Some this show ?thesis by simp
  qed
  then have "map_column bfill bfill (map_column ffill ffill ?s) = ?s"
    by (simp add: fill_all_missing)
  moreover have "(name, map_column bfill bfill (map_column ffill ffill ?s)) \<in> set (cols (final_table df))"
    unfolding cols_final_table using assms(1,4) by force
  ultimately show ?thesis using s by metis
qed

lemma unobserved_column_all_missing:
  assumes "ed \<noteq> []" and "is_set_order set_order"
    and "\<forall>(name, df) \<in> set ed. distinct (numeric_cols df) \<and> ''Date'' \<notin> set (numeric_cols df)"
    and "col \<in> (\<Union>(name, df) \<in> set ed. set (numeric_cols df))"
    and "\<forall>d. observed_values ed col d = []"
  shows "\<exists>r. average_exchanges set_order ed = Inr r
           \<and> map_of (avg_cols r) col = Some (replicate (length (Date r)) None)"
proof -
  let ?r = "\<lparr>Date = all_dates ed,
             avg_cols = map (\<lambda>col. (col, map (\<lambda>d. mean (observed_values ed col d)) (all_dates ed)))
                          (all_columns set_order ed)\<rparr>"
  have r: "average_exchanges set_order ed = Inr ?r"
    using assms(1-3) by (rule average_exchanges_cols)
  have "col \<in> set (all_columns set_order ed)"
    using set_all_columns(1) [OF assms(2), of ed] assms(4) by simp
  then have "map_of (avg_cols ?r) col
               = Some (map (\<lambda>d. mean (observed_values ed col d)) (all_dates ed))"
    by (simp add: map_of_keyed)
  also have "map (\<lambda>d. mean (observed_values ed col d)) (all_dates ed)
               = replicate (length (Date ?r)) None"
    using assms(5) by (simp add: mean_def map_replicate_const)
  finally show ?thesis using r by blast
qed

text \<open>
  Claim C6, as amended.  A metric column with no observed value is not left out: the
  table that \<open>create_combined_dataset\<close> writes has every column of the merged table whose
  name does not contain \<open>Currency\<close>, and a column that was all missing is written all
  missing, with its rows (forward and backward fill put no default into it).  Likewise
  \<open>average_exchanges\<close> returns a table in which a column that no exchange observed on any
  date is present and all missing.
\<close>

theorem unobserved_metric_written:
  "columns (final_table df) = filter (\<lambda>name. \<not> contains name ''Currency'') (columns df)
   \<and> (\<forall>(name, c) \<in> set (cols df).
         col_isna_all c \<and> col_length c = nrows df \<and> \<not> contains name ''Currency'' \<longrightarrow>
         (\<exists>c'. (name, c') \<in> set (cols (final_table df)) \<and> col_isna_all c'
                \<and> col_length c' = col_length c))
   \<and> (exchange_data \<noteq> [] \<and> is_set_order set_order
        \<and> (\<forall>(name, df) \<in> set exchange_data.
              distinct (numeric_cols df) \<and> ''Date'' \<notin> set (numeric_cols df))
        \<and> col \<in> (\<Union>(name, df) \<in> set exchange_data. set (numeric_cols df))
        \<and> (\<forall>d. observed_values exchange_data col d = [])
        \<longrightarrow> (\<exists>r. average_exchanges set_order exchange_data = Inr r
                 \<and> map_of (avg_cols r) col = Some (replicate (length (Date r)) None)))"
  using columns_final_table [of df] all_missing_kept [of _ _ df]
    unobserved_column_all_missing [of exchange_data set_order col]
  by blast


theorem unobserved_metric_written_witness:
  "columns (final_table \<lparr>index = Some [Some 2, Some 1],
                          cols = [(''AVG Close'', Num [Some 7, None]),
                                  (''AVG Volume'', Num [None, None])]\<rparr>)
     = [''AVG Close'', ''AVG Volume'']
   \<and> (\<exists>c'. (''AVG Volume'', c') \<in> set (cols (final_table
                 \<lparr>index = Some [Some 2, Some 1],
                    cols = [(''AVG Close'', Num [Some 7, None]),
                            (''AVG Volume'', Num [None, None])]\<rparr>))
            \<and> col_isna_all c' \<and> col_length c' = 2)
   \<and> (\<exists>r. average_exchanges id
              [(''GDAXI'', \<lparr>numeric_cols = [''Close'', ''Volume''],
                  rows = [(1, (\<lambda>col. None)(''Close'' := Some 20))]\<rparr>)] = Inr r
            \<and> map_of (avg_cols r) ''Volume'' = Some (replicate (length (Date r)) None))"
proof -
  let ?df = "\<lparr>index = Some [Some 2, Some 1],
              cols = [(''AVG Close'', Num [Some 7, None]), (''AVG Volume'', Num [None, None])]\<rparr>"
  let ?ed = "[(''GDAXI'', \<lparr>numeric_cols = [''Close'', ''Volume''],
                  rows = [(1::int, (\<lambda>col. None)(''Close'' := Some (20::real)))]\<rparr>)]"
  have a: "(''AVG Volume'', Num [None, None]) \<in> set (cols ?df)" by simp
  have b: "col_isna_all (Num [None, None]) \<and> col_length (Num [None, None]) = nrows ?df
           \<and> \<not> contains ''AVG Volume'' ''Currency''"
    by (simp add: nrows_def)
  have c: "?ed \<noteq> [] \<and> is_set_order id
        \<and> (\<forall>(name, df) \<in> set ?ed. distinct (numeric_cols df) \<and> ''Date'' \<notin> set (numeric_cols df))
        \<and> ''Volume'' \<in> (\<Union>(name, df) \<in> set ?ed. set (numeric_cols df))
        \<and> (\<forall>d. observed_values ?ed ''Volume'' d = [])"
    by (simp add: is_set_order_def observed_values_def)
  have d: "filter (\<lambda>name. \<not> contains name ''Currency'') (columns ?df) = [''AVG Close'', ''AVG Volume'']"
    by (simp add: columns_def)
  from unobserved_metric_written [where df = ?df and set_order = id and exchange_data = ?ed
         and col = "''Volume''"] a b c d
  show ?thesis by fastforce
qed

text \<open>
  Claim C6 as stated fails: an averaged table with a \<open>Close\<close> column only gives a combined
  table that still has the columns \<open>AVG Open\<close>, \<open>AVG High\<close>, \<open>AVG Low\<close>, \<open>AVG Volume\<close> and
  \<open>AVG CloseUSD\<close>, every cell of them missing.
\<close>

theorem unobserved_metric_counterexample:
  "map_option (\<lambda>final_df. cols (final_table final_df))
     (exchange_df \<lparr>index = Some [Some 1, Some 2], cols = [(''Close'', Num [Some 7, None])]\<rparr>)
   = Some [(''AVG Open'', Num [None, None]), (''AVG High'', Num [None, None]),
           (''AVG Low'', Num [None, None]), (''AVG Close'', Num [Some 7, Some 7]),
           (''AVG Adj Close'', Num [Some 7, Some 7]), (''AVG Volume'', Num [None, None]),
           (''AVG CloseUSD'', Num [None, None])]"
  by code_simp

end
